theory Spec2Isabelle
  imports Main
begin

section \<open>Text\<close>

text \<open>
  A Python \<open>str\<close> is a sequence of Unicode code points, and the pictographic symbols of
  the protocol lie far outside one byte, so text is a list of code points. ASCII
  literals of the source are written through \<open>ustr\<close>.
\<close>

type_synonym codepoint = nat
type_synonym ustring = "codepoint list"

definition ustr :: "string \<Rightarrow> ustring" where
  "ustr s = map of_char s"

definition newline :: codepoint where "newline = 10"
definition colon :: codepoint where "colon = 58"
definition slash :: codepoint where "slash = 47"

text \<open>
  \<open>\s\<close> of a \<open>str\<close> pattern and the characters removed by \<open>str.strip()\<close> are the same
  set, the code points for which \<open>str.isspace()\<close> holds.
\<close>

definition is_space :: "codepoint \<Rightarrow> bool" where
  "is_space c =
     ((9 \<le> c \<and> c \<le> 13) \<or> (28 \<le> c \<and> c \<le> 32) \<or> c = 0x85 \<or> c = 0xA0 \<or> c = 0x1680
      \<or> (0x2000 \<le> c \<and> c \<le> 0x200A) \<or> c = 0x2028 \<or> c = 0x2029 \<or> c = 0x202F
      \<or> c = 0x205F \<or> c = 0x3000)"

text \<open>
  \<open>\w\<close> of a \<open>str\<close> pattern is an alphanumeric code point or the underscore. On ASCII
  that is \<open>[0-9A-Za-z_]\<close>; beyond ASCII it is decided by the Unicode database of the
  Python runtime, which is no part of the repository and is taken as the parameter
  \<open>uni\<close>.
\<close>

definition is_word :: "(codepoint \<Rightarrow> bool) \<Rightarrow> codepoint \<Rightarrow> bool" where
  "is_word uni c =
     (if c < 128 then (48 \<le> c \<and> c \<le> 57) \<or> (65 \<le> c \<and> c \<le> 90) \<or> c = 95 \<or> (97 \<le> c \<and> c \<le> 122)
      else uni c)"

text \<open>A classification with no word character beyond ASCII, for concrete evaluation.\<close>

definition ascii_only :: "codepoint \<Rightarrow> bool" where
  "ascii_only c = False"

text \<open>\<open>str.strip()\<close> and \<open>sep.join(lines)\<close>.\<close>

definition strip :: "ustring \<Rightarrow> ustring" where
  "strip s = rev (dropWhile is_space (rev (dropWhile is_space s)))"

fun join :: "ustring \<Rightarrow> ustring list \<Rightarrow> ustring" where
  "join sep [] = []"
| "join sep [l] = l"
| "join sep (l # m # ls) = l @ sep @ join sep (m # ls)"

section \<open>Insertion-ordered dictionaries\<close>

text \<open>
  A Python \<open>dict\<close> keeps its keys in insertion order, and an assignment to a key that is
  present replaces the value where the key already stands.
\<close>

type_synonym ('k, 'v) dict = "('k \<times> 'v) list"

fun dict_set :: "('k, 'v) dict \<Rightarrow> 'k \<Rightarrow> 'v \<Rightarrow> ('k, 'v) dict" where
  "dict_set [] k v = [(k, v)]"
| "dict_set ((k', v') # d) k v =
     (if k' = k then (k', v) # d else (k', v') # dict_set d k v)"

definition dict_has :: "('k, 'v) dict \<Rightarrow> 'k \<Rightarrow> bool" where
  "dict_has d k = (map_of d k \<noteq> None)"

definition dict_get :: "('k, 'v) dict \<Rightarrow> 'k \<Rightarrow> 'v \<Rightarrow> 'v" where
  "dict_get d k dflt = (case map_of d k of Some v \<Rightarrow> v | None \<Rightarrow> dflt)"

text \<open>A dictionary display \<open>{k1: v1, k2: v2, ...}\<close> stores its items from left to right.\<close>

definition dict_of_items :: "('k \<times> 'v) list \<Rightarrow> ('k, 'v) dict" where
  "dict_of_items items = foldl (\<lambda>d (k, v). dict_set d k v) [] items"

section \<open>The token registry\<close>

text \<open>The items of the \<open>CORE_TOKENS\<close> display, in the order of the source.\<close>

definition CORE_TOKENS_items :: "(ustring \<times> ustring) list" where
  "CORE_TOKENS_items =
    [([0x1F680], ustr ''/act''),
     ([0x1F4DA], ustr ''/focus''),
     ([0x1F9E0], ustr ''/mind''),
     ([0x1F3AF], ustr ''/context''),
     ([0x1F4A1], ustr ''/intent''),
     ([0x1F4E6], ustr ''/deliverable''),
     ([0x23F0], ustr ''/timeline''),
     ([0x1F525], ustr ''/pulse''),
     ([0x1F3D4, 0xFE0F], ustr ''/gliph''),
     ([0x1F517], ustr ''/relation''),
     ([0x1F310], ustr ''/network''),
     ([0x1F504], ustr ''/compose''),
     ([0x1F50D], ustr ''/zoom''),
     ([0x1F39B, 0xFE0F], ustr ''/switch_context''),
     ([0x26D3, 0xFE0F], ustr ''/chain''),
     ([0x1F4E2], ustr ''/echo''),
     ([0x1F527], ustr ''/resolve''),
     ([0x1F4DD], ustr ''/note''),
     ([0x1F4CA], ustr ''/metric''),
     ([0x1F4E1], ustr ''/channel''),
     ([0x1F465], ustr ''/collective''),
     ([0x1F3AD], ustr ''/role''),
     ([0x1F3DB, 0xFE0F], ustr ''/govern''),
     ([0x1F4CB], ustr ''/norm''),
     ([0x1F4B0], ustr ''/resource''),
     ([0x1F91D], ustr ''/trust''),
     ([0x1F3AF], ustr ''/goal''),
     ([0x26A1], ustr ''/trigger''),
     ([0x1F3A8], ustr ''/palette''),
     ([0x1F464], ustr ''/character''),
     ([0x1F30D], ustr ''/setting''),
     ([0x1F4D6], ustr ''/lore''),
     ([0x1F3B2], ustr ''/turn''),
     ([0x1F331], ustr ''/seed''),
     ([0x1F3B5], ustr ''/motif''),
     ([0x1F3D7, 0xFE0F], ustr ''/structure''),
     ([0x1F441, 0xFE0F], ustr ''/pov''),
     ([0x2728], ustr ''/flourish''),
     ([0x2753], ustr ''/query''),
     ([0x1F504], ustr ''/ongoing''),
     ([0x1F309], ustr ''/bridge''),
     ([0x2696, 0xFE0F], ustr ''/dialectic''),
     ([0x1F9E0, 0x1F9E0], ustr ''/meta''),
     ([0x1F4C4], ustr ''/source''),
     ([0x1F504], ustr ''/transform''),
     ([0x1F50D], ustr ''/introspect'')]"

definition CORE_TOKENS :: "(ustring, ustring) dict" where
  "CORE_TOKENS = dict_of_items CORE_TOKENS_items"

text \<open>\<open>SLASH_TO_EMOJI = {v: k for k, v in CORE_TOKENS.items()}\<close>\<close>

definition SLASH_TO_EMOJI :: "(ustring, ustring) dict" where
  "SLASH_TO_EMOJI = dict_of_items (map (\<lambda>(k, v). (v, k)) CORE_TOKENS)"

section \<open>The token pattern\<close>

text \<open>
  The code points between the brackets of the pattern, as written there (the
  variation selector \<open>0xFE0F\<close> of the two-code-point symbols is a member of its own).
\<close>

definition symbol_class :: "codepoint list" where
  "symbol_class =
    [0x1F680, 0x1F4DA, 0x1F9E0, 0x1F3AF, 0x1F4A1, 0x1F4E6, 0x23F0, 0x1F525,
     0x1F3D4, 0xFE0F, 0x1F517, 0x1F310, 0x1F504, 0x1F50D, 0x1F39B, 0xFE0F,
     0x26D3, 0xFE0F, 0x1F4E2, 0x1F527, 0x1F4DD, 0x1F4CA, 0x1F4E1, 0x1F465,
     0x1F3AD, 0x1F3DB, 0xFE0F, 0x1F4CB, 0x1F4B0, 0x1F91D, 0x26A1, 0x1F3A8,
     0x1F464, 0x1F30D, 0x1F4D6, 0x1F3B2, 0x1F331, 0x1F3B5, 0x1F3D7, 0xFE0F,
     0x1F441, 0xFE0F, 0x2728, 0x2753, 0x1F309, 0x2696, 0xFE0F, 0x1F4C4]"

definition in_class :: "codepoint \<Rightarrow> bool" where
  "in_class c = (c \<in> set symbol_class)"

text \<open>
  The pattern is
  \<open>([SYMBOLS]|/\w+):\s*(.+?)(?=\n[SYMBOLS]|/\w+:|$)\<close> under \<open>DOTALL | MULTILINE\<close>.
  The matcher below follows the backtracking search of \<open>re\<close>: a greedy repetition
  first tries to take one more character and gives one back when what follows fails;
  the lazy \<open>.+?\<close> stops at the first position where the lookahead holds.
  A continuation receives the characters the repetition has taken and the rest.
\<close>

fun greedy_star ::
  "(codepoint \<Rightarrow> bool) \<Rightarrow> (ustring \<Rightarrow> ustring \<Rightarrow> 'a option) \<Rightarrow> ustring \<Rightarrow> ustring \<Rightarrow> 'a option" where
  "greedy_star p k acc [] = k acc []"
| "greedy_star p k acc (c # cs) =
     (if p c then
        (case greedy_star p k (acc @ [c]) cs of
           Some r \<Rightarrow> Some r
         | None \<Rightarrow> k acc (c # cs))
      else k acc (c # cs))"

definition greedy_plus ::
  "(codepoint \<Rightarrow> bool) \<Rightarrow> (ustring \<Rightarrow> ustring \<Rightarrow> 'a option) \<Rightarrow> ustring \<Rightarrow> 'a option" where
  "greedy_plus p k s =
     (case s of [] \<Rightarrow> None | c # cs \<Rightarrow> if p c then greedy_star p k [c] cs else None)"

text \<open>The lookahead alternative \<open>/\w+:\<close>.\<close>

definition slash_word_colon :: "(codepoint \<Rightarrow> bool) \<Rightarrow> ustring \<Rightarrow> bool" where
  "slash_word_colon uni s =
     (case s of
        [] \<Rightarrow> False
      | c # cs \<Rightarrow>
          c = slash \<and>
          greedy_plus (is_word uni)
            (\<lambda>w r. case r of [] \<Rightarrow> None | d # _ \<Rightarrow> if d = colon then Some () else None) cs \<noteq> None)"

text \<open>The lookahead alternative \<open>\n[SYMBOLS]\<close>.\<close>

definition newline_symbol :: "ustring \<Rightarrow> bool" where
  "newline_symbol s = (case s of c # d # _ \<Rightarrow> c = newline \<and> in_class d | _ \<Rightarrow> False)"

text \<open>\<open>$\<close> under \<open>MULTILINE\<close>: the end of the text, or just before a newline.\<close>

definition end_of_line :: "ustring \<Rightarrow> bool" where
  "end_of_line s = (case s of [] \<Rightarrow> True | c # _ \<Rightarrow> c = newline)"

definition lookahead :: "(codepoint \<Rightarrow> bool) \<Rightarrow> ustring \<Rightarrow> bool" where
  "lookahead uni s = (newline_symbol s \<or> slash_word_colon uni s \<or> end_of_line s)"

text \<open>
  \<open>(.+?)(?=...)\<close> under \<open>DOTALL\<close>: at least one character of any kind, as few as
  possible. The result is the value and the text after the match.
\<close>

fun dot_plus_lazy :: "(codepoint \<Rightarrow> bool) \<Rightarrow> ustring \<Rightarrow> (ustring \<times> ustring) option" where
  "dot_plus_lazy uni [] = None"
| "dot_plus_lazy uni (c # cs) =
     (if lookahead uni cs then Some ([c], cs)
      else (case dot_plus_lazy uni cs of
              None \<Rightarrow> None
            | Some (v, r) \<Rightarrow> Some (c # v, r)))"

text \<open>\<open>:\s*(.+?)(?=...)\<close> after the token \<open>tok\<close>: the two groups and the rest.\<close>

definition after_token ::
  "(codepoint \<Rightarrow> bool) \<Rightarrow> ustring \<Rightarrow> ustring \<Rightarrow> (ustring \<times> ustring \<times> ustring) option" where
  "after_token uni tok s =
     (case s of
        [] \<Rightarrow> None
      | c # cs \<Rightarrow>
          if c = colon then
            greedy_star is_space
              (\<lambda>_ r. case dot_plus_lazy uni r of
                         None \<Rightarrow> None
                       | Some (v, r') \<Rightarrow> Some (tok, v, r')) [] cs
          else None)"

text \<open>A match of the whole pattern at the start of \<open>s\<close>; the first alternative is tried first.\<close>

definition match_here ::
  "(codepoint \<Rightarrow> bool) \<Rightarrow> ustring \<Rightarrow> (ustring \<times> ustring \<times> ustring) option" where
  "match_here uni s =
     (case s of
        [] \<Rightarrow> None
      | c # cs \<Rightarrow>
          (case (if in_class c then after_token uni [c] cs else None) of
             Some m \<Rightarrow> Some m
           | None \<Rightarrow>
               if c = slash then greedy_plus (is_word uni) (\<lambda>w r. after_token uni (c # w) r) cs
               else None))"

text \<open>
  \<open>findall\<close>: the search tries a match at every position from left to right and, after
  a match, resumes where that match ended. The argument \<open>skip\<close> counts the code points
  of the text that still belong to the last match. A match of this pattern is never
  empty, so the search never has to step over an empty match.
\<close>

fun findall_from :: "(codepoint \<Rightarrow> bool) \<Rightarrow> nat \<Rightarrow> ustring \<Rightarrow> (ustring \<times> ustring) list" where
  "findall_from uni skip [] = []"
| "findall_from uni (Suc skip) (c # cs) = findall_from uni skip cs"
| "findall_from uni 0 (c # cs) =
     (case match_here uni (c # cs) of
        Some (tok, v, r) \<Rightarrow> (tok, v) # findall_from uni (length cs - length r) cs
      | None \<Rightarrow> findall_from uni 0 cs)"

definition findall :: "(codepoint \<Rightarrow> bool) \<Rightarrow> ustring \<Rightarrow> (ustring \<times> ustring) list" where
  "findall uni s = findall_from uni 0 s"

section \<open>Messages\<close>

datatype AgentType = HUMAN | GPT | CLAUDE

record NeuroGlyphMessage =
  timestamp :: ustring
  agent :: ustring
  agent_type :: AgentType
  tokens :: "(ustring, ustring) dict"
  raw_text :: ustring
  is_valid :: bool
  validation_errors :: "ustring list"

text \<open>
  The constructor of the dataclass: \<open>is_valid\<close> defaults to \<open>True\<close> and
  \<open>validation_errors\<close> to \<open>None\<close>, which \<open>__post_init__\<close> replaces by the empty list.
  An argument that the caller leaves out is \<open>None\<close> here.
\<close>

definition new_NeuroGlyphMessage ::
  "ustring \<Rightarrow> ustring \<Rightarrow> AgentType \<Rightarrow> (ustring, ustring) dict \<Rightarrow> ustring \<Rightarrow>
   bool option \<Rightarrow> ustring list option \<Rightarrow> NeuroGlyphMessage" where
  "new_NeuroGlyphMessage ts ag aty toks raw valid errs =
     \<lparr> timestamp = ts, agent = ag, agent_type = aty, tokens = toks, raw_text = raw,
       is_valid = (case valid of None \<Rightarrow> True | Some b \<Rightarrow> b),
       validation_errors = (case errs of None \<Rightarrow> [] | Some e \<Rightarrow> e) \<rparr>"

section \<open>The parser\<close>

text \<open>
  \<open>validate_message\<close> appends to the list it is given and returns the flag; the model
  returns the flag together with the list.
\<close>

definition validate_message ::
  "(ustring, ustring) dict \<Rightarrow> ustring list \<Rightarrow> bool \<times> ustring list" where
  "validate_message toks errors =
     (let valid = True;
          (errors, valid) =
            (if dict_has toks (ustr ''/act'') then
               (let (errors, valid) =
                      (if \<not> dict_has toks (ustr ''/intent'')
                       then (errors @ [ustr ''Action requires /intent declaration''], False)
                       else (errors, valid));
                    (errors, valid) =
                      (if \<not> dict_has toks (ustr ''/context'')
                       then (errors @ [ustr ''Action requires /context declaration''], False)
                       else (errors, valid))
                in (errors, valid))
             else (errors, valid));
          errors =
            (if list_ex (dict_has toks) [ustr ''/act'', ustr ''/query'', ustr ''/resolve''] then
               (if \<not> dict_has toks (ustr ''/deliverable'')
                then errors @ [ustr ''Interactive tokens should specify expected /deliverable'']
                else errors)
             else errors)
      in (valid, errors))"

text \<open>
  The loop of \<open>parse_message\<close> over the matches: the symbol is replaced by its
  canonical identifier when the registry knows it, and the stripped value is stored.
\<close>

definition store_match ::
  "(ustring, ustring) dict \<Rightarrow> ustring \<times> ustring \<Rightarrow> (ustring, ustring) dict" where
  "store_match toks m =
     (case m of (token_raw, v) \<Rightarrow>
        (let token = dict_get CORE_TOKENS token_raw token_raw
         in dict_set toks token (strip v)))"

text \<open>The time of the call, \<open>datetime.now().isoformat()\<close>, is the argument \<open>now\<close>.\<close>

definition parse_message ::
  "(codepoint \<Rightarrow> bool) \<Rightarrow> ustring \<Rightarrow> ustring \<Rightarrow> ustring \<Rightarrow> AgentType \<Rightarrow> NeuroGlyphMessage" where
  "parse_message uni now txt ag aty =
     (let matches = findall uni txt;
          toks = foldl store_match [] matches;
          (valid, errors) = validate_message toks []
      in new_NeuroGlyphMessage now ag aty toks txt (Some valid) (Some errors))"

definition format_message :: "(ustring, ustring) dict \<Rightarrow> bool \<Rightarrow> ustring" where
  "format_message toks use_emojis =
     join [newline]
       (map (\<lambda>(token, v).
               (let display_token =
                      (if use_emojis \<and> dict_has SLASH_TO_EMOJI token
                       then dict_get SLASH_TO_EMOJI token token
                       else token)
                in display_token @ ustr '': '' @ v))
            toks)"

section \<open>The conversation engine\<close>

text \<open>
  Of the engine's fields only the history and the active context belong to the
  protocol; the network clients and the speech devices are left out.
\<close>

record ConversationEngine =
  conversation_history :: "NeuroGlyphMessage list"
  active_context :: "(ustring, ustring) dict"

definition new_ConversationEngine :: ConversationEngine where
  "new_ConversationEngine = \<lparr> conversation_history = [], active_context = [] \<rparr>"

definition init_tokens ::
  "ustring \<Rightarrow> ustring list \<Rightarrow> ustring \<Rightarrow> ustring \<Rightarrow> (ustring, ustring) dict" where
  "init_tokens topic participants context intent =
     dict_of_items
       [(ustr ''/mind'', join (ustr '', '') participants),
        (ustr ''/focus'', topic),
        (ustr ''/context'',
           if context \<noteq> [] then context else ustr ''Multi-agent dialogue on '' @ topic),
        (ustr ''/intent'',
           if intent \<noteq> [] then intent else ustr ''Collaborative exploration and understanding''),
        (ustr ''/deliverable'', ustr ''structured_dialogue''),
        (ustr ''/timeline'', ustr ''ongoing''),
        (ustr ''/channel'', ustr ''text_and_voice''),
        (ustr ''/norm'', ustr ''respectful_dialogue, ng_protocol_adherence''),
        (ustr ''/govern'', ustr ''consensus_seeking'')]"

definition initialize_conversation ::
  "ConversationEngine \<Rightarrow> ustring \<Rightarrow> ustring \<Rightarrow> ustring list \<Rightarrow> ustring \<Rightarrow> ustring \<Rightarrow>
   NeuroGlyphMessage \<times> ConversationEngine" where
  "initialize_conversation eng now topic participants context intent =
     (let toks = init_tokens topic participants context intent;
          init_message =
            new_NeuroGlyphMessage now (ustr ''system'') HUMAN toks (format_message toks True)
              None None
      in (init_message,
          eng\<lparr> conversation_history := conversation_history eng @ [init_message],
               active_context := toks \<rparr>))"

text \<open>
  The two statements of \<open>add_message\<close> under the comment \<open>Update active context with
  new information\<close>: \<open>if key in tokens: active_context[key] = tokens[key]\<close>.
\<close>

definition update_key ::
  "(ustring, ustring) dict \<Rightarrow> ustring \<Rightarrow> (ustring, ustring) dict \<Rightarrow> (ustring, ustring) dict" where
  "update_key toks key ctx =
     (case map_of toks key of Some v \<Rightarrow> dict_set ctx key v | None \<Rightarrow> ctx)"

definition update_active_context ::
  "(ustring, ustring) dict \<Rightarrow> (ustring, ustring) dict \<Rightarrow> (ustring, ustring) dict" where
  "update_active_context ctx toks =
     update_key toks (ustr ''/focus'') (update_key toks (ustr ''/context'') ctx)"

definition add_message ::
  "(codepoint \<Rightarrow> bool) \<Rightarrow> ConversationEngine \<Rightarrow> ustring \<Rightarrow> ustring \<Rightarrow> ustring \<Rightarrow> AgentType \<Rightarrow>
   NeuroGlyphMessage \<times> ConversationEngine" where
  "add_message uni eng now txt ag aty =
     (let message = parse_message uni now txt ag aty
      in (message,
          eng\<lparr> conversation_history := conversation_history eng @ [message],
               active_context := update_active_context (active_context eng) (tokens message) \<rparr>))"

text \<open>A sequence of calls of \<open>add_message\<close>, each with its time, text, agent and kind.\<close>

fun add_messages ::
  "(codepoint \<Rightarrow> bool) \<Rightarrow> ConversationEngine \<Rightarrow> (ustring \<times> ustring \<times> ustring \<times> AgentType) list \<Rightarrow>
   ConversationEngine" where
  "add_messages uni eng [] = eng"
| "add_messages uni eng ((now, txt, ag, aty) # calls) =
     add_messages uni (snd (add_message uni eng now txt ag aty)) calls"

section \<open>Notions used in the properties\<close>

text \<open>
  The example message of the specification: the symbols for action, intent, context
  and deliverable, one per line, with the values \<open>ship_v1\<close>, \<open>deliver_value\<close>,
  \<open>launch\<close> and \<open>release_notes\<close>.
\<close>

definition example_text :: ustring where
  "example_text =
     [0x1F680] @ ustr '': ship_v1'' @ [newline] @ [0x1F4A1] @ ustr '': deliver_value'' @ [newline]
     @ [0x1F3AF] @ ustr '': launch'' @ [newline] @ [0x1F4E6] @ ustr '': release_notes''"

text \<open>The same message with its third line in the canonical notation.\<close>

definition example_text_canonical :: ustring where
  "example_text_canonical =
     [0x1F680] @ ustr '': ship_v1'' @ [newline] @ [0x1F4A1] @ ustr '': deliver_value'' @ [newline]
     @ ustr ''/context: launch'' @ [newline] @ [0x1F4E6] @ ustr '': release_notes''"

text \<open>
  A token as the first group of the pattern can match it: one code point of the symbol
  class, or a slash followed by one or more word characters.
\<close>

definition token_shape :: "(codepoint \<Rightarrow> bool) \<Rightarrow> ustring \<Rightarrow> bool" where
  "token_shape uni tok =
     (case tok of
        [] \<Rightarrow> False
      | c # w \<Rightarrow> (in_class c \<and> w = []) \<or> (c = slash \<and> w \<noteq> [] \<and> list_all (is_word uni) w))"

text \<open>A token followed by a colon stands at the start of \<open>s\<close>.\<close>

definition segment_start :: "(codepoint \<Rightarrow> bool) \<Rightarrow> ustring \<Rightarrow> bool" where
  "segment_start uni s =
     (case s of
        [] \<Rightarrow> False
      | c # cs \<Rightarrow>
          (in_class c \<and> (case cs of [] \<Rightarrow> False | d # _ \<Rightarrow> d = colon))
          \<or> slash_word_colon uni s)"

text \<open>Some position of the text is a segment start.\<close>

fun recognizable :: "(codepoint \<Rightarrow> bool) \<Rightarrow> ustring \<Rightarrow> bool" where
  "recognizable uni [] = False"
| "recognizable uni (c # cs) = (segment_start uni (c # cs) \<or> recognizable uni cs)"

text \<open>
  Values that a formatted message gives back: not empty, no whitespace at either end,
  all on one line, and no \<open>/word:\<close> after the first character.
\<close>

fun single_line :: "(codepoint \<Rightarrow> bool) \<Rightarrow> ustring \<Rightarrow> bool" where
  "single_line uni [] = True"
| "single_line uni (c # cs) =
     (c \<noteq> newline \<and> \<not> slash_word_colon uni (c # cs) \<and> single_line uni cs)"

definition plain_value :: "(codepoint \<Rightarrow> bool) \<Rightarrow> ustring \<Rightarrow> bool" where
  "plain_value uni v =
     (case v of
        [] \<Rightarrow> False
      | c # cs \<Rightarrow> \<not> is_space c \<and> \<not> is_space (last (c # cs)) \<and> c \<noteq> newline \<and> single_line uni cs)"

text \<open>
  Keys that a formatted message gives back: a canonical identifier, and, when symbols
  are preferred, one whose registered symbol (if it has one) is a single code point.
\<close>

definition canonical_key :: "(codepoint \<Rightarrow> bool) \<Rightarrow> ustring \<Rightarrow> bool" where
  "canonical_key uni k =
     (case k of [] \<Rightarrow> False | c # w \<Rightarrow> c = slash \<and> w \<noteq> [] \<and> list_all (is_word uni) w)"

definition single_symbol :: "bool \<Rightarrow> ustring \<Rightarrow> bool" where
  "single_symbol use_emojis k =
     (case map_of SLASH_TO_EMOJI k of
        None \<Rightarrow> True
      | Some e \<Rightarrow> \<not> use_emojis \<or> length e = 1)"

definition roundtrip_mapping ::
  "(codepoint \<Rightarrow> bool) \<Rightarrow> bool \<Rightarrow> (ustring, ustring) dict \<Rightarrow> bool" where
  "roundtrip_mapping uni use_emojis toks =
     (distinct (map fst toks) \<and>
      list_all (\<lambda>(k, v). canonical_key uni k \<and> single_symbol use_emojis k \<and> plain_value uni v) toks)"

text \<open>
  A value on one line: it starts with a character that is no whitespace, and after
  that character it has neither a line break nor a \<open>/word:\<close>.
\<close>

definition line_value :: "(codepoint \<Rightarrow> bool) \<Rightarrow> ustring \<Rightarrow> bool" where
  "line_value uni v = (case v of [] \<Rightarrow> False | c # cs \<Rightarrow> \<not> is_space c \<and> single_line uni cs)"

text \<open>
  What may follow a value: the end of the text, a line break before a line that itself
  starts a segment, or a \<open>/word:\<close>.
\<close>

definition segment_boundary :: "(codepoint \<Rightarrow> bool) \<Rightarrow> ustring \<Rightarrow> bool" where
  "segment_boundary uni rest =
     (case rest of
        [] \<Rightarrow> True
      | d # r \<Rightarrow> (d = newline \<and> segment_start uni r) \<or> slash_word_colon uni rest)"

text \<open>
  Where a value \<open>v\<close>, followed in the text by \<open>post\<close>, begins and ends. It begins with
  the first character after the colon that is no whitespace, unless only whitespace
  follows the colon up to the end of the text, when it is the last of that whitespace.
  It ends where the lookahead holds: at the end of the text, before a line break or
  before a \<open>/word:\<close>. And after its first character it goes neither past a line break
  that a symbol follows nor past a \<open>/word:\<close>.
\<close>

definition value_extent :: "(codepoint \<Rightarrow> bool) \<Rightarrow> ustring \<Rightarrow> ustring \<Rightarrow> bool" where
  "value_extent uni v post =
     (case v of
        [] \<Rightarrow> False
      | c # cs \<Rightarrow>
          (is_space c \<and> cs = [] \<and> post = [] \<or> \<not> is_space c)
          \<and> lookahead uni post
          \<and> list_all
               (\<lambda>i. \<not> newline_symbol (drop i v @ post) \<and> \<not> slash_word_colon uni (drop i v @ post))
               [1..<length v])"

text \<open>The value of \<open>key\<close> in the last message of a history that declares it.\<close>

fun last_declared :: "ustring \<Rightarrow> NeuroGlyphMessage list \<Rightarrow> ustring option" where
  "last_declared key [] = None"
| "last_declared key (m # ms) =
     (case last_declared key ms of Some v \<Rightarrow> Some v | None \<Rightarrow> map_of (tokens m) key)"

text \<open>
  A conversation: a new engine, initialized, and then a sequence of added messages.
\<close>

definition conversation ::
  "(codepoint \<Rightarrow> bool) \<Rightarrow> ustring \<Rightarrow> ustring \<Rightarrow> ustring list \<Rightarrow> ustring \<Rightarrow> ustring \<Rightarrow>
   (ustring \<times> ustring \<times> ustring \<times> AgentType) list \<Rightarrow> ConversationEngine" where
  "conversation uni now topic participants context intent calls =
     add_messages uni
       (snd (initialize_conversation new_ConversationEngine now topic participants context intent))
       calls"

section \<open>Evaluation of the tables and of the pattern\<close>

lemmas rx_defs = in_class_def symbol_class_def match_here_def after_token_def lookahead_def
  newline_symbol_def slash_word_colon_def end_of_line_def greedy_plus_def is_space_def is_word_def
  newline_def colon_def slash_def findall_def

lemma CORE_TOKENS_value:
  "CORE_TOKENS =
    [([0x1F680], ustr ''/act''),
     ([0x1F4DA], ustr ''/focus''),
     ([0x1F9E0], ustr ''/mind''),
     ([0x1F3AF], ustr ''/goal''),
     ([0x1F4A1], ustr ''/intent''),
     ([0x1F4E6], ustr ''/deliverable''),
     ([0x23F0], ustr ''/timeline''),
     ([0x1F525], ustr ''/pulse''),
     ([0x1F3D4, 0xFE0F], ustr ''/gliph''),
     ([0x1F517], ustr ''/relation''),
     ([0x1F310], ustr ''/network''),
     ([0x1F504], ustr ''/transform''),
     ([0x1F50D], ustr ''/introspect''),
     ([0x1F39B, 0xFE0F], ustr ''/switch_context''),
     ([0x26D3, 0xFE0F], ustr ''/chain''),
     ([0x1F4E2], ustr ''/echo''),
     ([0x1F527], ustr ''/resolve''),
     ([0x1F4DD], ustr ''/note''),
     ([0x1F4CA], ustr ''/metric''),
     ([0x1F4E1], ustr ''/channel''),
     ([0x1F465], ustr ''/collective''),
     ([0x1F3AD], ustr ''/role''),
     ([0x1F3DB, 0xFE0F], ustr ''/govern''),
     ([0x1F4CB], ustr ''/norm''),
     ([0x1F4B0], ustr ''/resource''),
     ([0x1F91D], ustr ''/trust''),
     ([0x26A1], ustr ''/trigger''),
     ([0x1F3A8], ustr ''/palette''),
     ([0x1F464], ustr ''/character''),
     ([0x1F30D], ustr ''/setting''),
     ([0x1F4D6], ustr ''/lore''),
     ([0x1F3B2], ustr ''/turn''),
     ([0x1F331], ustr ''/seed''),
     ([0x1F3B5], ustr ''/motif''),
     ([0x1F3D7, 0xFE0F], ustr ''/structure''),
     ([0x1F441, 0xFE0F], ustr ''/pov''),
     ([0x2728], ustr ''/flourish''),
     ([0x2753], ustr ''/query''),
     ([0x1F309], ustr ''/bridge''),
     ([0x2696, 0xFE0F], ustr ''/dialectic''),
     ([0x1F9E0, 0x1F9E0], ustr ''/meta''),
     ([0x1F4C4], ustr ''/source'')]"
  by (simp add: CORE_TOKENS_def CORE_TOKENS_items_def dict_of_items_def ustr_def)

lemma SLASH_TO_EMOJI_value:
  "SLASH_TO_EMOJI =
    [(ustr ''/act'', [0x1F680]),
     (ustr ''/focus'', [0x1F4DA]),
     (ustr ''/mind'', [0x1F9E0]),
     (ustr ''/goal'', [0x1F3AF]),
     (ustr ''/intent'', [0x1F4A1]),
     (ustr ''/deliverable'', [0x1F4E6]),
     (ustr ''/timeline'', [0x23F0]),
     (ustr ''/pulse'', [0x1F525]),
     (ustr ''/gliph'', [0x1F3D4, 0xFE0F]),
     (ustr ''/relation'', [0x1F517]),
     (ustr ''/network'', [0x1F310]),
     (ustr ''/transform'', [0x1F504]),
     (ustr ''/introspect'', [0x1F50D]),
     (ustr ''/switch_context'', [0x1F39B, 0xFE0F]),
     (ustr ''/chain'', [0x26D3, 0xFE0F]),
     (ustr ''/echo'', [0x1F4E2]),
     (ustr ''/resolve'', [0x1F527]),
     (ustr ''/note'', [0x1F4DD]),
     (ustr ''/metric'', [0x1F4CA]),
     (ustr ''/channel'', [0x1F4E1]),
     (ustr ''/collective'', [0x1F465]),
     (ustr ''/role'', [0x1F3AD]),
     (ustr ''/govern'', [0x1F3DB, 0xFE0F]),
     (ustr ''/norm'', [0x1F4CB]),
     (ustr ''/resource'', [0x1F4B0]),
     (ustr ''/trust'', [0x1F91D]),
     (ustr ''/trigger'', [0x26A1]),
     (ustr ''/palette'', [0x1F3A8]),
     (ustr ''/character'', [0x1F464]),
     (ustr ''/setting'', [0x1F30D]),
     (ustr ''/lore'', [0x1F4D6]),
     (ustr ''/turn'', [0x1F3B2]),
     (ustr ''/seed'', [0x1F331]),
     (ustr ''/motif'', [0x1F3B5]),
     (ustr ''/structure'', [0x1F3D7, 0xFE0F]),
     (ustr ''/pov'', [0x1F441, 0xFE0F]),
     (ustr ''/flourish'', [0x2728]),
     (ustr ''/query'', [0x2753]),
     (ustr ''/bridge'', [0x1F309]),
     (ustr ''/dialectic'', [0x2696, 0xFE0F]),
     (ustr ''/meta'', [0x1F9E0, 0x1F9E0]),
     (ustr ''/source'', [0x1F4C4])]"
  by (simp add: SLASH_TO_EMOJI_def CORE_TOKENS_value dict_of_items_def ustr_def)

section \<open>Properties of the matcher\<close>

lemma greedy_star_split:
  "greedy_star p k acc s = Some x \<Longrightarrow>
     \<exists>ws r. s = ws @ r \<and> list_all p ws \<and> k (acc @ ws) r = Some x"
proof (induction s arbitrary: acc)
  case Nil
  then show ?case by simp
next
  case (Cons c cs)
  show ?case
  proof (cases "p c \<and> greedy_star p k (acc @ [c]) cs \<noteq> None")
    case True
    then obtain y where y: "greedy_star p k (acc @ [c]) cs = Some y" by auto
    with Cons.prems True have "y = x" by simp
    with y Cons.IH [of "acc @ [c]"] obtain ws r where
      "cs = ws @ r" "list_all p ws" "k ((acc @ [c]) @ ws) r = Some x" by blast
    with True have "c # cs = (c # ws) @ r \<and> list_all p (c # ws) \<and> k (acc @ c # ws) r = Some x"
      by simp
    then show ?thesis by blast
  next
    case False
    with Cons.prems have "k acc (c # cs) = Some x" by (auto split: if_splits option.splits)
    then have "c # cs = [] @ (c # cs) \<and> list_all p [] \<and> k (acc @ []) (c # cs) = Some x" by simp
    then show ?thesis by blast
  qed
qed

lemma greedy_star_longest:
  "list_all p ws \<Longrightarrow> (case r of [] \<Rightarrow> True | d # _ \<Rightarrow> \<not> p d) \<Longrightarrow> k (acc @ ws) r = Some x \<Longrightarrow>
     greedy_star p k acc (ws @ r) = Some x"
proof (induction ws arbitrary: acc)
  case Nil
  then show ?case by (cases r) auto
next
  case (Cons w ws)
  from Cons.prems have "greedy_star p k (acc @ [w]) (ws @ r) = Some x"
    by (intro Cons.IH) auto
  with Cons.prems show ?case by simp
qed

lemma greedy_star_some:
  "list_all p ws \<Longrightarrow> k (acc @ ws) r \<noteq> None \<Longrightarrow> greedy_star p k acc (ws @ r) \<noteq> None"
proof (induction ws arbitrary: acc)
  case Nil
  then show ?case by (cases r) (auto split: option.splits)
next
  case (Cons w ws)
  from Cons.prems have "greedy_star p k (acc @ [w]) (ws @ r) \<noteq> None"
    by (intro Cons.IH) auto
  with Cons.prems show ?case by (auto split: option.splits)
qed

lemma dot_plus_lazy_split:
  "dot_plus_lazy uni s = Some (v, r) \<Longrightarrow> s = v @ r \<and> v \<noteq> [] \<and> lookahead uni r"
  by (induction s arbitrary: v) (auto split: if_splits option.splits)

lemma lookahead_Nil: "lookahead uni []"
  by (simp add: lookahead_def end_of_line_def)

lemma after_token_split:
  assumes "after_token uni tok s = Some (t, v, r)"
  shows "t = tok \<and> (\<exists>ws. s = colon # ws @ v @ r \<and> list_all is_space ws) \<and> v \<noteq> [] \<and> lookahead uni r"
proof -
  from assms obtain cs where s: "s = colon # cs"
    and g: "greedy_star is_space
              (\<lambda>_ r. case dot_plus_lazy uni r of None \<Rightarrow> None | Some (v, r') \<Rightarrow> Some (tok, v, r'))
              [] cs = Some (t, v, r)"
    by (auto simp: after_token_def split: list.splits if_splits)
  from greedy_star_split [OF g] obtain ws r0 where
    cs: "cs = ws @ r0" and ws: "list_all is_space ws"
    and k: "(case dot_plus_lazy uni r0 of None \<Rightarrow> None | Some (v, r') \<Rightarrow> Some (tok, v, r')) = Some (t, v, r)"
    by blast
  from k have d: "dot_plus_lazy uni r0 = Some (v, r)" and t: "t = tok"
    by (auto split: option.splits)
  from dot_plus_lazy_split [OF d] s cs ws t show ?thesis by auto
qed

lemma slash_not_in_class: "\<not> in_class slash"
  by (simp add: in_class_def symbol_class_def slash_def)

lemma match_here_split:
  assumes "match_here uni s = Some (tok, v, r)"
  shows "token_shape uni tok \<and> (\<exists>ws. s = tok @ colon # ws @ v @ r \<and> list_all is_space ws)
         \<and> v \<noteq> [] \<and> lookahead uni r"
proof -
  from assms obtain c cs where s: "s = c # cs"
    by (cases s) (auto simp: match_here_def)
  show ?thesis
  proof (cases "in_class c")
    case True
    with slash_not_in_class have "c \<noteq> slash" by auto
    with assms s True have a: "after_token uni [c] cs = Some (tok, v, r)"
      by (auto simp: match_here_def split: option.splits)
    from after_token_split [OF a] s True show ?thesis
      by (auto simp: token_shape_def)
  next
    case False
    with assms s have c: "c = slash"
      and g: "greedy_plus (is_word uni) (\<lambda>w r. after_token uni (c # w) r) cs = Some (tok, v, r)"
      by (auto simp: match_here_def split: if_splits)
    from g obtain d ds where cs: "cs = d # ds" and d: "is_word uni d"
      and g': "greedy_star (is_word uni) (\<lambda>w r. after_token uni (c # w) r) [d] ds = Some (tok, v, r)"
      by (auto simp: greedy_plus_def split: list.splits if_splits)
    from greedy_star_split [OF g'] obtain w r0 where
      ds: "ds = w @ r0" and w: "list_all (is_word uni) w"
      and a: "after_token uni (c # [d] @ w) r0 = Some (tok, v, r)" by blast
    from after_token_split [OF a] s cs ds d w c show ?thesis
      by (auto simp: token_shape_def)
  qed
qed

lemma findall_from_drop: "findall_from uni n s = findall_from uni 0 (drop n s)"
  by (induction uni n s rule: findall_from.induct) auto

lemma findall_Nil: "findall uni [] = []"
  by (simp add: findall_def)

lemma findall_match:
  assumes "match_here uni s = Some (tok, v, r)"
  shows "findall uni s = (tok, v) # findall uni r"
proof -
  from match_here_split [OF assms] obtain ws where
    sh: "token_shape uni tok" and s: "s = tok @ colon # ws @ v @ r" by blast
  from sh obtain c w where tok: "tok = c # w" by (cases tok) (auto simp: token_shape_def)
  define cs where "cs = w @ colon # ws @ v"
  have s': "s = c # cs @ r" by (simp add: s tok cs_def)
  have "findall uni s = (tok, v) # findall_from uni (length (cs @ r) - length r) (cs @ r)"
    using assms unfolding findall_def s' by simp
  also have "findall_from uni (length (cs @ r) - length r) (cs @ r) = findall_from uni 0 r"
    by (subst findall_from_drop) simp
  finally show ?thesis by (simp add: findall_def)
qed

lemma findall_no_match:
  "match_here uni (c # cs) = None \<Longrightarrow> findall uni (c # cs) = findall uni cs"
  by (simp add: findall_def)

lemma colon_not_word: "\<not> is_word uni colon"
  by (simp add: is_word_def colon_def)

lemma colon_not_in_class: "\<not> in_class colon"
  by (simp add: in_class_def symbol_class_def colon_def)

lemma newline_not_word: "\<not> is_word uni newline"
  by (simp add: is_word_def newline_def)

lemma newline_not_in_class: "\<not> in_class newline"
  by (simp add: in_class_def symbol_class_def newline_def)

lemma slash_word_colon_iff:
  "slash_word_colon uni s \<longleftrightarrow>
     (\<exists>w r. s = slash # w @ colon # r \<and> w \<noteq> [] \<and> list_all (is_word uni) w)"
proof
  let ?k = "\<lambda>(w::ustring) (r::ustring). case r of [] \<Rightarrow> None | d # _ \<Rightarrow> if d = colon then Some () else None"
  assume "slash_word_colon uni s"
  then obtain d ds where s: "s = slash # d # ds" and d: "is_word uni d"
    and g: "greedy_star (is_word uni) ?k [d] ds = Some ()"
    by (auto simp: slash_word_colon_def greedy_plus_def split: list.splits if_splits)
  from greedy_star_split [OF g] obtain w r0 where
    ds: "ds = w @ r0" and w: "list_all (is_word uni) w" and k: "?k ([d] @ w) r0 = Some ()" by blast
  from k obtain r where "r0 = colon # r" by (auto split: list.splits if_splits)
  with s ds d w have "s = slash # (d # w) @ colon # r \<and> d # w \<noteq> [] \<and> list_all (is_word uni) (d # w)"
    by simp
  then show "\<exists>w r. s = slash # w @ colon # r \<and> w \<noteq> [] \<and> list_all (is_word uni) w" by blast
next
  let ?k = "\<lambda>(w::ustring) (r::ustring). case r of [] \<Rightarrow> None | d # _ \<Rightarrow> if d = colon then Some () else None"
  assume "\<exists>w r. s = slash # w @ colon # r \<and> w \<noteq> [] \<and> list_all (is_word uni) w"
  then obtain w r where s: "s = slash # w @ colon # r" and "w \<noteq> []" and w: "list_all (is_word uni) w"
    by blast
  then obtain d w' where dw: "w = d # w'" by (cases w) auto
  have "greedy_star (is_word uni) ?k [d] (w' @ colon # r) \<noteq> None"
    using w dw by (intro greedy_star_some) auto
  with s dw w show "slash_word_colon uni s"
    by (simp add: slash_word_colon_def greedy_plus_def)
qed

lemma match_here_segment_start:
  assumes "match_here uni s = Some m"
  shows "segment_start uni s"
proof -
  obtain tok v r where m: "m = (tok, v, r)" by (cases m)
  from match_here_split [OF assms [unfolded m]] obtain ws where
    sh: "token_shape uni tok" and s: "s = tok @ colon # ws @ v @ r" by blast
  from sh obtain c w where tok: "tok = c # w" by (cases tok) (auto simp: token_shape_def)
  show ?thesis
  proof (cases "w = []")
    case True
    with sh tok have "in_class c"
      by (auto simp: token_shape_def)
    with s tok True show ?thesis by (simp add: segment_start_def)
  next
    case False
    with sh tok have "c = slash" "list_all (is_word uni) w"
      by (auto simp: token_shape_def)
    with s tok False have "slash_word_colon uni s"
      unfolding slash_word_colon_iff by auto
    with s tok show ?thesis by (simp add: segment_start_def)
  qed
qed

lemma findall_skip_prefix:
  "(\<forall>i<length pre. \<not> segment_start uni (drop i (pre @ rest))) \<Longrightarrow>
     findall uni (pre @ rest) = findall uni rest"
proof (induction pre)
  case Nil
  then show ?case by simp
next
  case (Cons c pre)
  from Cons.prems have "\<not> segment_start uni (drop 0 ((c # pre) @ rest))" by blast
  then have "match_here uni (c # pre @ rest) = None"
    using match_here_segment_start by (cases "match_here uni (c # pre @ rest)") auto
  then have "findall uni ((c # pre) @ rest) = findall uni (pre @ rest)"
    by (simp add: findall_no_match)
  moreover have "\<forall>i<length pre. \<not> segment_start uni (drop i (pre @ rest))"
  proof (intro allI impI)
    fix i assume "i < length pre"
    then have "Suc i < length (c # pre)" by simp
    with Cons.prems have "\<not> segment_start uni (drop (Suc i) ((c # pre) @ rest))" by blast
    then show "\<not> segment_start uni (drop i (pre @ rest))" by simp
  qed
  ultimately show ?case using Cons.IH by simp
qed

lemma not_recognizable_findall: "\<not> recognizable uni s \<Longrightarrow> findall uni s = []"
proof (induction s)
  case Nil
  then show ?case by (simp add: findall_Nil)
next
  case (Cons c cs)
  then have "match_here uni (c # cs) = None"
    using match_here_segment_start by (cases "match_here uni (c # cs)") auto
  with Cons show ?case by (simp add: findall_no_match)
qed

lemma match_here_shorter:
  "match_here uni s = Some (tok, v, r) \<Longrightarrow> length r < length s"
  by (drule match_here_split) auto

lemma strip_split:
  "\<exists>a b. v = a @ strip v @ b \<and> list_all is_space a \<and> list_all is_space b"
proof -
  define u where "u = dropWhile is_space v"
  have 1: "v = takeWhile is_space v @ u" by (simp add: u_def)
  have "u = rev (dropWhile is_space (rev u)) @ rev (takeWhile is_space (rev u))"
    by (metis rev_append rev_rev_ident takeWhile_dropWhile_id)
  then have 2: "u = strip v @ rev (takeWhile is_space (rev u))"
    by (simp add: strip_def u_def)
  have 3: "list_all is_space (takeWhile is_space v)"
    by (simp add: list_all_iff) (meson set_takeWhileD)
  have 4: "list_all is_space (rev (takeWhile is_space (rev u)))"
    by (simp add: list_all_iff) (meson set_takeWhileD)
  from 1 2 have "v = takeWhile is_space v @ strip v @ rev (takeWhile is_space (rev u))" by simp
  with 3 4 show ?thesis by blast
qed

lemma strip_ends:
  assumes "strip v \<noteq> []"
  shows "\<not> is_space (hd (strip v)) \<and> \<not> is_space (last (strip v))"
proof -
  define u where "u = dropWhile is_space v"
  define t where "t = dropWhile is_space (rev u)"
  from assms have t: "t \<noteq> []" by (simp add: strip_def t_def u_def)
  then have u: "u \<noteq> []" by (auto simp: t_def)
  have "last (strip v) = hd t"
    using t by (simp add: strip_def t_def u_def last_rev)
  moreover have "\<not> is_space (hd t)" using t unfolding t_def by (rule hd_dropWhile)
  moreover have "hd (strip v) = last t"
    using t by (simp add: strip_def t_def u_def hd_rev)
  moreover have "last t = last (rev u)"
  proof -
    have "rev u = takeWhile is_space (rev u) @ t" by (simp add: t_def)
    then have "last (rev u) = last (takeWhile is_space (rev u) @ t)" by simp
    with t show ?thesis by simp
  qed
  moreover have "last (rev u) = hd u" using u by (simp add: last_rev)
  moreover have "\<not> is_space (hd u)" using u unfolding u_def by (rule hd_dropWhile)
  ultimately show ?thesis by simp
qed

section \<open>The example message\<close>

text \<open>
  C1. The specification's example, the four lines \<open>action: ship_v1\<close>,
  \<open>intent: deliver_value\<close>, \<open>context: launch\<close>, \<open>deliverable: release_notes\<close> written
  with their symbols, is expected to parse to those four canonical keys, valid and
  without diagnostics. The table defines the context symbol a second time, for
  \<open>/goal\<close>, and the later entry replaces the earlier one: the third line is stored
  under \<open>/goal\<close>, no \<open>/context\<close> is found, and the message is invalid with one
  diagnostic. With the third line written \<open>/context: launch\<close> the same message parses
  as expected.
\<close>

theorem parse_example_stores_goal:
  "parse_message uni now example_text ag aty =
     \<lparr> timestamp = now, agent = ag, agent_type = aty,
       tokens = [(ustr ''/act'', ustr ''ship_v1''), (ustr ''/intent'', ustr ''deliver_value''),
                 (ustr ''/goal'', ustr ''launch''), (ustr ''/deliverable'', ustr ''release_notes'')],
       raw_text = example_text, is_valid = False,
       validation_errors = [ustr ''Action requires /context declaration''] \<rparr>
   \<and> parse_message uni now example_text_canonical ag aty =
     \<lparr> timestamp = now, agent = ag, agent_type = aty,
       tokens = [(ustr ''/act'', ustr ''ship_v1''), (ustr ''/intent'', ustr ''deliver_value''),
                 (ustr ''/context'', ustr ''launch''), (ustr ''/deliverable'', ustr ''release_notes'')],
       raw_text = example_text_canonical, is_valid = True,
       validation_errors = [] \<rparr>"
proof -
  have m: "findall uni example_text =
     [([0x1F680], ustr ''ship_v1''), ([0x1F4A1], ustr ''deliver_value''),
      ([0x1F3AF], ustr ''launch''), ([0x1F4E6], ustr ''release_notes'')]"
    by (simp add: example_text_def rx_defs ustr_def)
  have t: "foldl store_match [] (findall uni example_text) =
     [(ustr ''/act'', ustr ''ship_v1''), (ustr ''/intent'', ustr ''deliver_value''),
      (ustr ''/goal'', ustr ''launch''), (ustr ''/deliverable'', ustr ''release_notes'')]"
    unfolding m
    by (simp add: store_match_def dict_get_def CORE_TOKENS_value strip_def is_space_def ustr_def)
  have 1: "parse_message uni now example_text ag aty =
     \<lparr> timestamp = now, agent = ag, agent_type = aty,
       tokens = [(ustr ''/act'', ustr ''ship_v1''), (ustr ''/intent'', ustr ''deliver_value''),
                 (ustr ''/goal'', ustr ''launch''), (ustr ''/deliverable'', ustr ''release_notes'')],
       raw_text = example_text, is_valid = False,
       validation_errors = [ustr ''Action requires /context declaration''] \<rparr>"
    unfolding parse_message_def Let_def t
    by (simp add: validate_message_def dict_has_def new_NeuroGlyphMessage_def ustr_def)
  have m': "findall uni example_text_canonical =
     [([0x1F680], ustr ''ship_v1''), ([0x1F4A1], ustr ''deliver_value''),
      (ustr ''/context'', ustr ''launch''), ([0x1F4E6], ustr ''release_notes'')]"
    by (simp add: example_text_canonical_def rx_defs ustr_def)
  have t': "foldl store_match [] (findall uni example_text_canonical) =
     [(ustr ''/act'', ustr ''ship_v1''), (ustr ''/intent'', ustr ''deliver_value''),
      (ustr ''/context'', ustr ''launch''), (ustr ''/deliverable'', ustr ''release_notes'')]"
    unfolding m'
    by (simp add: store_match_def dict_get_def CORE_TOKENS_value strip_def is_space_def ustr_def)
  have 2: "parse_message uni now example_text_canonical ag aty =
     \<lparr> timestamp = now, agent = ag, agent_type = aty,
       tokens = [(ustr ''/act'', ustr ''ship_v1''), (ustr ''/intent'', ustr ''deliver_value''),
                 (ustr ''/context'', ustr ''launch''), (ustr ''/deliverable'', ustr ''release_notes'')],
       raw_text = example_text_canonical, is_valid = True,
       validation_errors = [] \<rparr>"
    unfolding parse_message_def Let_def t'
    by (simp add: validate_message_def dict_has_def new_NeuroGlyphMessage_def ustr_def)
  from 1 2 show ?thesis by (rule conjI)
qed

section \<open>The validator\<close>

lemma validate_message_unfold:
  "validate_message toks errs =
     (\<not> (dict_has toks (ustr ''/act'') \<and> \<not> dict_has toks (ustr ''/intent'')) \<and>
      \<not> (dict_has toks (ustr ''/act'') \<and> \<not> dict_has toks (ustr ''/context'')),
      errs
      @ (if dict_has toks (ustr ''/act'') \<and> \<not> dict_has toks (ustr ''/intent'')
         then [ustr ''Action requires /intent declaration''] else [])
      @ (if dict_has toks (ustr ''/act'') \<and> \<not> dict_has toks (ustr ''/context'')
         then [ustr ''Action requires /context declaration''] else [])
      @ (if (dict_has toks (ustr ''/act'') \<or> dict_has toks (ustr ''/query'')
             \<or> dict_has toks (ustr ''/resolve''))
            \<and> \<not> dict_has toks (ustr ''/deliverable'')
         then [ustr ''Interactive tokens should specify expected /deliverable''] else []))"
  by (simp add: validate_message_def Let_def)

text \<open>
  C5. The rules of the validator, in their order. With the action token present, a
  missing intent token and a missing context token each append their own diagnostic and
  make the message invalid, independently of each other; then, with any of the action,
  query or resolve tokens present and no deliverable token, a third diagnostic is
  appended, which leaves the flag as it is. Nothing else is appended, and the flag is
  false exactly when one of the first two rules fired.
\<close>

theorem validate_message_rules:
  "validate_message toks errs =
     (\<not> (dict_has toks (ustr ''/act'') \<and> \<not> dict_has toks (ustr ''/intent'')) \<and>
      \<not> (dict_has toks (ustr ''/act'') \<and> \<not> dict_has toks (ustr ''/context'')),
      errs
      @ (if dict_has toks (ustr ''/act'') \<and> \<not> dict_has toks (ustr ''/intent'')
         then [ustr ''Action requires /intent declaration''] else [])
      @ (if dict_has toks (ustr ''/act'') \<and> \<not> dict_has toks (ustr ''/context'')
         then [ustr ''Action requires /context declaration''] else [])
      @ (if (dict_has toks (ustr ''/act'') \<or> dict_has toks (ustr ''/query'')
             \<or> dict_has toks (ustr ''/resolve''))
            \<and> \<not> dict_has toks (ustr ''/deliverable'')
         then [ustr ''Interactive tokens should specify expected /deliverable''] else []))"
  by (rule validate_message_unfold)

theorem validate_message_rules_witness:
  "validate_message [(ustr ''/act'', ustr ''ship_v1'')] [] =
     (False,
      [ustr ''Action requires /intent declaration'',
       ustr ''Action requires /context declaration'',
       ustr ''Interactive tokens should specify expected /deliverable''])
   \<and> validate_message [(ustr ''/act'', ustr ''a''), (ustr ''/intent'', ustr ''b''),
                        (ustr ''/context'', ustr ''c'')] [] =
     (True, [ustr ''Interactive tokens should specify expected /deliverable''])"
  using validate_message_rules [of "[(ustr ''/act'', ustr ''ship_v1'')]" "[]"]
    validate_message_rules [of "[(ustr ''/act'', ustr ''a''), (ustr ''/intent'', ustr ''b''),
                        (ustr ''/context'', ustr ''c'')]" "[]"]
  by (simp add: dict_has_def ustr_def)

section \<open>Parsing never fails\<close>

lemma parse_message_fields:
  "tokens (parse_message uni now s ag aty) = foldl store_match [] (findall uni s)"
  "is_valid (parse_message uni now s ag aty) =
     fst (validate_message (foldl store_match [] (findall uni s)) [])"
  "validation_errors (parse_message uni now s ag aty) =
     snd (validate_message (foldl store_match [] (findall uni s)) [])"
  "raw_text (parse_message uni now s ag aty) = s"
  "agent (parse_message uni now s ag aty) = ag"
  "agent_type (parse_message uni now s ag aty) = aty"
  "timestamp (parse_message uni now s ag aty) = now"
  by (simp_all add: parse_message_def Let_def new_NeuroGlyphMessage_def split: prod.splits)

lemma validate_message_empty: "validate_message [] [] = (True, [])"
  by (simp add: validate_message_def dict_has_def)

text \<open>
  C8. The parser is a total function of its text: it has no failing branch, it returns
  the text, the agent and the kind it was given, its diagnostics are drawn from the
  three sentences of the validator, and the flag is false exactly when one of the two
  error sentences is among them. A text without any segment start gives the empty
  mapping, which is valid and has no diagnostic; so does any text whose mapping is
  empty.
\<close>

theorem parse_message_never_fails:
  "raw_text (parse_message uni now s ag aty) = s
   \<and> agent (parse_message uni now s ag aty) = ag
   \<and> agent_type (parse_message uni now s ag aty) = aty
   \<and> set (validation_errors (parse_message uni now s ag aty))
       \<subseteq> {ustr ''Action requires /intent declaration'',
          ustr ''Action requires /context declaration'',
          ustr ''Interactive tokens should specify expected /deliverable''}
   \<and> (is_valid (parse_message uni now s ag aty) \<longleftrightarrow>
        ustr ''Action requires /intent declaration''
          \<notin> set (validation_errors (parse_message uni now s ag aty))
        \<and> ustr ''Action requires /context declaration''
          \<notin> set (validation_errors (parse_message uni now s ag aty)))
   \<and> (\<not> recognizable uni s \<longrightarrow> tokens (parse_message uni now s ag aty) = [])
   \<and> (tokens (parse_message uni now s ag aty) = [] \<longrightarrow>
        is_valid (parse_message uni now s ag aty)
        \<and> validation_errors (parse_message uni now s ag aty) = [])"
proof -
  have ne: "ustr ''Action requires /intent declaration'' \<noteq> ustr ''Action requires /context declaration''"
    "ustr ''Action requires /intent declaration'' \<noteq> ustr ''Interactive tokens should specify expected /deliverable''"
    "ustr ''Action requires /context declaration'' \<noteq> ustr ''Interactive tokens should specify expected /deliverable''"
    by (simp_all add: ustr_def)
  have 1: "set (validation_errors (parse_message uni now s ag aty))
       \<subseteq> {ustr ''Action requires /intent declaration'',
          ustr ''Action requires /context declaration'',
          ustr ''Interactive tokens should specify expected /deliverable''}"
    unfolding parse_message_fields validate_message_unfold by auto
  have 2: "is_valid (parse_message uni now s ag aty) \<longleftrightarrow>
        ustr ''Action requires /intent declaration''
          \<notin> set (validation_errors (parse_message uni now s ag aty))
        \<and> ustr ''Action requires /context declaration''
          \<notin> set (validation_errors (parse_message uni now s ag aty))"
    unfolding parse_message_fields validate_message_unfold using ne by auto
  have 3: "\<not> recognizable uni s \<longrightarrow> tokens (parse_message uni now s ag aty) = []"
    by (simp add: parse_message_fields not_recognizable_findall)
  have 4: "tokens (parse_message uni now s ag aty) = [] \<longrightarrow>
        is_valid (parse_message uni now s ag aty)
        \<and> validation_errors (parse_message uni now s ag aty) = []"
    by (simp add: parse_message_fields validate_message_empty)
  from 1 2 3 4 show ?thesis by (simp add: parse_message_fields)
qed

theorem parse_message_never_fails_witness:
  "\<not> recognizable ascii_only (ustr ''hello: world'')
   \<and> tokens (parse_message ascii_only [] (ustr ''hello: world'') (ustr ''Human'') HUMAN) = []
   \<and> is_valid (parse_message ascii_only [] (ustr ''hello: world'') (ustr ''Human'') HUMAN)
   \<and> validation_errors (parse_message ascii_only [] (ustr ''hello: world'') (ustr ''Human'') HUMAN) = []"
proof -
  have "\<not> recognizable ascii_only (ustr ''hello: world'')"
    by (simp add: ustr_def segment_start_def rx_defs)
  with parse_message_never_fails [of ascii_only "[]" "ustr ''hello: world''" "ustr ''Human''" HUMAN]
  show ?thesis by simp
qed

section \<open>Synthesized messages\<close>

text \<open>
  C9. A message built without the validator, as the initialization message is: the
  constructor is given neither a flag nor diagnostics, so the message is valid, has
  no diagnostics, and its text is the mapping formatted with symbols. This holds for
  every mapping, agent and kind, also for a mapping the validator would reject. The
  initialization message is such a message, from the agent \<open>system\<close>.
\<close>

theorem synthesized_message_valid:
  "is_valid (new_NeuroGlyphMessage now ag aty toks (format_message toks True) None None)
   \<and> validation_errors (new_NeuroGlyphMessage now ag aty toks (format_message toks True) None None) = []
   \<and> raw_text (new_NeuroGlyphMessage now ag aty toks (format_message toks True) None None)
       = format_message toks True
   \<and> tokens (new_NeuroGlyphMessage now ag aty toks (format_message toks True) None None) = toks
   \<and> agent (new_NeuroGlyphMessage now ag aty toks (format_message toks True) None None) = ag
   \<and> agent_type (new_NeuroGlyphMessage now ag aty toks (format_message toks True) None None) = aty
   \<and> fst (initialize_conversation eng now topic participants context intent)
       = new_NeuroGlyphMessage now (ustr ''system'') HUMAN
           (init_tokens topic participants context intent)
           (format_message (init_tokens topic participants context intent) True) None None
   \<and> is_valid (new_NeuroGlyphMessage now ag aty [(ustr ''/act'', v)]
                  (format_message [(ustr ''/act'', v)] True) None None)
       \<noteq> fst (validate_message [(ustr ''/act'', v)] [])"
  by (simp add: new_NeuroGlyphMessage_def initialize_conversation_def Let_def
        validate_message_unfold dict_has_def ustr_def)

section \<open>Properties of dictionaries\<close>

lemma map_of_dict_set: "map_of (dict_set d k v) = (map_of d)(k \<mapsto> v)"
  by (induction d) (auto simp: fun_eq_iff)

lemma keys_dict_set: "fst ` set (dict_set d k v) = insert k (fst ` set d)"
  by (simp add: dom_map_of_conv_image_fst [symmetric] map_of_dict_set)

lemma distinct_dict_set: "distinct (map fst d) \<Longrightarrow> distinct (map fst (dict_set d k v))"
  by (induction d) (auto simp: keys_dict_set)

lemma dict_set_same: "map_of d k = Some v \<Longrightarrow> dict_set d k v = d"
  by (induction d) (auto split: if_splits)

lemma dict_set_new: "k \<notin> set (map fst d) \<Longrightarrow> dict_set d k v = d @ [(k, v)]"
  by (induction d) auto

lemma foldl_dict_set_map_of:
  "map_of (foldl (\<lambda>d (k, v). dict_set d k v) d0 items) = map_of (rev items @ d0)"
proof (induction items arbitrary: d0)
  case Nil
  then show ?case by simp
next
  case (Cons a items)
  obtain k v where a: "a = (k, v)" by (cases a)
  show ?case
    by (simp add: Cons.IH a map_of_dict_set fun_eq_iff map_add_def split: option.splits)
qed

lemma foldl_dict_set_distinct:
  "distinct (map fst d0) \<Longrightarrow> distinct (map fst (foldl (\<lambda>d (k, v). dict_set d k v) d0 items))"
proof (induction items arbitrary: d0)
  case Nil
  then show ?case by simp
next
  case (Cons a items)
  obtain k v where a: "a = (k, v)" by (cases a)
  from Cons.prems show ?case
    by (simp add: a Cons.IH distinct_dict_set)
qed

lemma map_of_dict_of_items: "map_of (dict_of_items items) = map_of (rev items)"
  by (simp add: dict_of_items_def foldl_dict_set_map_of)

lemma distinct_dict_of_items: "distinct (map fst (dict_of_items items))"
  by (simp add: dict_of_items_def foldl_dict_set_distinct)

lemma map_of_rev_last:
  "map_of (rev items) k =
     (case filter (\<lambda>(k', v). k' = k) items of [] \<Rightarrow> None | e # es \<Rightarrow> Some (snd (last (e # es))))"
proof (induction items rule: rev_induct)
  case Nil
  then show ?case by simp
next
  case (snoc a items)
  obtain k' v where a: "a = (k', v)" by (cases a)
  show ?case
    by (cases "filter (\<lambda>(k', v). k' = k) items") (auto simp: a snoc.IH)
qed

section \<open>The active context\<close>

lemma map_of_update_key:
  "map_of (update_key toks key ctx) k =
     (if k = key then (case map_of toks key of Some v \<Rightarrow> Some v | None \<Rightarrow> map_of ctx key)
      else map_of ctx k)"
  by (simp add: update_key_def map_of_dict_set split: option.splits)

lemma focus_not_context: "ustr ''/focus'' \<noteq> ustr ''/context''"
  by (simp add: ustr_def)

lemma map_of_update_active_context:
  "map_of (update_active_context ctx toks) k =
     (if k = ustr ''/context'' \<or> k = ustr ''/focus''
      then (case map_of toks k of Some v \<Rightarrow> Some v | None \<Rightarrow> map_of ctx k)
      else map_of ctx k)"
  using focus_not_context
  by (auto simp: update_active_context_def map_of_update_key split: option.splits)

lemma update_key_fixed:
  "map_of toks key = map_of ctx key \<Longrightarrow> update_key toks key ctx = ctx"
  by (auto simp: update_key_def dict_set_same split: option.splits)

lemma update_key_absent: "map_of toks key = None \<Longrightarrow> update_key toks key ctx = ctx"
  by (simp add: update_key_def)

lemma update_active_context_twice:
  "update_active_context (update_active_context ctx toks) toks = update_active_context ctx toks"
proof -
  define c1 where "c1 = update_active_context ctx toks"
  have 1: "update_key toks (ustr ''/context'') c1 = c1"
  proof (cases "map_of toks (ustr ''/context'')")
    case None
    then show ?thesis by (rule update_key_absent)
  next
    case (Some v)
    then have "map_of c1 (ustr ''/context'') = Some v"
      by (simp add: c1_def map_of_update_active_context)
    with Some show ?thesis by (simp add: update_key_fixed)
  qed
  have 2: "update_key toks (ustr ''/focus'') c1 = c1"
  proof (cases "map_of toks (ustr ''/focus'')")
    case None
    then show ?thesis by (rule update_key_absent)
  next
    case (Some v)
    then have "map_of c1 (ustr ''/focus'') = Some v"
      by (simp add: c1_def map_of_update_active_context)
    with Some show ?thesis by (simp add: update_key_fixed)
  qed
  have "update_active_context c1 toks = c1"
    unfolding update_active_context_def [of c1] 1 2 ..
  then show ?thesis by (simp add: c1_def)
qed

lemma add_message_fields:
  "fst (add_message uni eng now s ag aty) = parse_message uni now s ag aty"
  "active_context (snd (add_message uni eng now s ag aty)) =
     update_active_context (active_context eng) (tokens (parse_message uni now s ag aty))"
  "conversation_history (snd (add_message uni eng now s ag aty)) =
     conversation_history eng @ [parse_message uni now s ag aty]"
  by (simp_all add: add_message_def Let_def)

lemma keys_update_key:
  "set (map fst ctx) \<subseteq> set (map fst (update_key toks key ctx))"
  by (auto simp: update_key_def keys_dict_set split: option.splits)

text \<open>
  C7. The accumulator of \<open>add_message\<close>: the new active context is a function of the
  old one and of the message's tokens alone; the entries of \<open>/context\<close> and \<open>/focus\<close>
  take the message's value when the message declares them; every other entry, and
  these two when the message does not declare them, stay as they were; no key is
  removed. Adding the same text a second time leaves the active context as the first
  time left it.
\<close>

theorem add_message_last_write_wins:
  "active_context (snd (add_message uni eng now s ag aty)) =
     update_active_context (active_context eng) (tokens (fst (add_message uni eng now s ag aty)))
   \<and> map_of (active_context (snd (add_message uni eng now s ag aty))) k =
       (if k = ustr ''/context'' \<or> k = ustr ''/focus''
        then (case map_of (tokens (fst (add_message uni eng now s ag aty))) k of
                Some v \<Rightarrow> Some v
              | None \<Rightarrow> map_of (active_context eng) k)
        else map_of (active_context eng) k)
   \<and> set (map fst (active_context eng))
       \<subseteq> set (map fst (active_context (snd (add_message uni eng now s ag aty))))
   \<and> active_context
        (snd (add_message uni (snd (add_message uni eng now s ag aty)) now' s ag' aty'))
       = active_context (snd (add_message uni eng now s ag aty))"
proof -
  have "set (map fst (active_context eng))
       \<subseteq> set (map fst (active_context (snd (add_message uni eng now s ag aty))))"
    unfolding add_message_fields update_active_context_def
    using keys_update_key by (rule order_trans) (rule keys_update_key)
  moreover have "tokens (parse_message uni now' s ag' aty') = tokens (parse_message uni now s ag aty)"
    by (simp add: parse_message_fields)
  ultimately show ?thesis
    by (simp add: add_message_fields map_of_update_active_context update_active_context_twice)
qed

section \<open>The registry\<close>

lemma CORE_TOKENS_values_distinct: "distinct (map snd CORE_TOKENS)"
  by (simp add: CORE_TOKENS_value ustr_def)

lemma map_of_swap_distinct:
  "distinct (map fst d) \<Longrightarrow> distinct (map snd d) \<Longrightarrow>
     map_of (rev (map (\<lambda>(k, v). (v, k)) d)) c = Some s \<longleftrightarrow> map_of d s = Some c"
proof -
  assume k: "distinct (map fst d)" and v: "distinct (map snd d)"
  have eq: "map fst (rev (map (\<lambda>(k, v). (v, k)) d)) = rev (map snd d)"
    by (induction d) auto
  have "distinct (map fst (rev (map (\<lambda>(k, v). (v, k)) d)))"
    unfolding eq using v by simp
  then have "map_of (rev (map (\<lambda>(k, v). (v, k)) d)) c = Some s
        \<longleftrightarrow> (c, s) \<in> set (rev (map (\<lambda>(k, v). (v, k)) d))"
    by simp
  also have "\<dots> \<longleftrightarrow> (s, c) \<in> set d" by auto
  also have "\<dots> \<longleftrightarrow> map_of d s = Some c" using k by simp
  finally show ?thesis .
qed

lemma SLASH_TO_EMOJI_inverse:
  "map_of SLASH_TO_EMOJI c = Some s \<longleftrightarrow> map_of CORE_TOKENS s = Some c"
proof -
  have "distinct (map fst CORE_TOKENS)"
    unfolding CORE_TOKENS_def by (rule distinct_dict_of_items)
  then show ?thesis
    unfolding SLASH_TO_EMOJI_def map_of_dict_of_items
    by (rule map_of_swap_distinct) (rule CORE_TOKENS_values_distinct)
qed

lemma resolve_last_entry:
  "dict_get CORE_TOKENS s s =
     (case filter (\<lambda>(k, v). k = s) CORE_TOKENS_items of
        [] \<Rightarrow> s
      | e # es \<Rightarrow> snd (last (e # es)))"
  by (simp add: dict_get_def CORE_TOKENS_def map_of_dict_of_items map_of_rev_last
        split: list.splits)

text \<open>
  C3. The registry is built from the table with the last definition of a symbol
  winning: the canonical identifier of a symbol is that of its last entry in the
  table (and a text that is no symbol of the table resolves to itself), so the three
  symbols defined more than once resolve to \<open>/goal\<close>, \<open>/transform\<close> and
  \<open>/introspect\<close>. The reverse lookup is the inverse of the resolved table: a
  canonical identifier has the symbol \<open>s\<close> exactly when \<open>s\<close> resolves to it.
\<close>

theorem registry_last_definition_wins:
  "dict_get CORE_TOKENS s s =
     (case filter (\<lambda>(k, v). k = s) CORE_TOKENS_items of
        [] \<Rightarrow> s
      | e # es \<Rightarrow> snd (last (e # es)))
   \<and> dict_get CORE_TOKENS [0x1F3AF] [0x1F3AF] = ustr ''/goal''
   \<and> dict_get CORE_TOKENS [0x1F504] [0x1F504] = ustr ''/transform''
   \<and> dict_get CORE_TOKENS [0x1F50D] [0x1F50D] = ustr ''/introspect''
   \<and> filter (\<lambda>(k, v). k = [0x1F3AF]) CORE_TOKENS_items
       = [([0x1F3AF], ustr ''/context''), ([0x1F3AF], ustr ''/goal'')]
   \<and> filter (\<lambda>(k, v). k = [0x1F504]) CORE_TOKENS_items
       = [([0x1F504], ustr ''/compose''), ([0x1F504], ustr ''/ongoing''),
          ([0x1F504], ustr ''/transform'')]
   \<and> filter (\<lambda>(k, v). k = [0x1F50D]) CORE_TOKENS_items
       = [([0x1F50D], ustr ''/zoom''), ([0x1F50D], ustr ''/introspect'')]
   \<and> (map_of SLASH_TO_EMOJI c = Some s \<longleftrightarrow> map_of CORE_TOKENS s = Some c)"
proof -
  have "dict_get CORE_TOKENS [0x1F3AF] [0x1F3AF] = ustr ''/goal''"
    "dict_get CORE_TOKENS [0x1F504] [0x1F504] = ustr ''/transform''"
    "dict_get CORE_TOKENS [0x1F50D] [0x1F50D] = ustr ''/introspect''"
    by (simp_all add: dict_get_def CORE_TOKENS_value)
  moreover have "filter (\<lambda>(k, v). k = [0x1F3AF]) CORE_TOKENS_items
       = [([0x1F3AF], ustr ''/context''), ([0x1F3AF], ustr ''/goal'')]"
    "filter (\<lambda>(k, v). k = [0x1F504]) CORE_TOKENS_items
       = [([0x1F504], ustr ''/compose''), ([0x1F504], ustr ''/ongoing''),
          ([0x1F504], ustr ''/transform'')]"
    "filter (\<lambda>(k, v). k = [0x1F50D]) CORE_TOKENS_items
       = [([0x1F50D], ustr ''/zoom''), ([0x1F50D], ustr ''/introspect'')]"
    by (simp_all add: CORE_TOKENS_items_def)
  ultimately show ?thesis
    using resolve_last_entry [of s] SLASH_TO_EMOJI_inverse [of c s] by simp
qed

section \<open>The active context over a conversation\<close>

lemma last_declared_append:
  "last_declared k (hs @ ms) =
     (case last_declared k ms of Some v \<Rightarrow> Some v | None \<Rightarrow> last_declared k hs)"
  by (induction hs) (auto split: option.splits)

lemma add_messages_history:
  "conversation_history (add_messages uni eng calls) =
     conversation_history eng @ map (\<lambda>(now, s, ag, aty). parse_message uni now s ag aty) calls"
  by (induction uni eng calls rule: add_messages.induct) (simp_all add: add_message_fields)

lemma add_messages_context:
  "map_of (active_context (add_messages uni eng calls)) k =
     (if k = ustr ''/context'' \<or> k = ustr ''/focus''
      then (case last_declared k (map (\<lambda>(now, s, ag, aty). parse_message uni now s ag aty) calls) of
              Some v \<Rightarrow> Some v
            | None \<Rightarrow> map_of (active_context eng) k)
      else map_of (active_context eng) k)"
  by (induction uni eng calls rule: add_messages.induct)
     (auto simp: add_message_fields map_of_update_active_context split: option.splits)

lemma initialize_conversation_fields:
  "conversation_history (snd (initialize_conversation eng now topic ps context intent)) =
     conversation_history eng @ [fst (initialize_conversation eng now topic ps context intent)]"
  "active_context (snd (initialize_conversation eng now topic ps context intent)) =
     init_tokens topic ps context intent"
  "tokens (fst (initialize_conversation eng now topic ps context intent)) =
     init_tokens topic ps context intent"
  by (simp_all add: initialize_conversation_def Let_def new_NeuroGlyphMessage_def)

lemma init_tokens_value:
  "init_tokens topic ps context intent =
       [(ustr ''/mind'', join (ustr '', '') ps),
        (ustr ''/focus'', topic),
        (ustr ''/context'',
           if context \<noteq> [] then context else ustr ''Multi-agent dialogue on '' @ topic),
        (ustr ''/intent'',
           if intent \<noteq> [] then intent else ustr ''Collaborative exploration and understanding''),
        (ustr ''/deliverable'', ustr ''structured_dialogue''),
        (ustr ''/timeline'', ustr ''ongoing''),
        (ustr ''/channel'', ustr ''text_and_voice''),
        (ustr ''/norm'', ustr ''respectful_dialogue, ng_protocol_adherence''),
        (ustr ''/govern'', ustr ''consensus_seeking'')]"
  by (simp add: init_tokens_def dict_of_items_def ustr_def)

lemma conversation_history_value:
  "conversation_history (conversation uni now topic ps context intent calls) =
     fst (initialize_conversation new_ConversationEngine now topic ps context intent)
     # map (\<lambda>(now, s, ag, aty). parse_message uni now s ag aty) calls"
  by (simp add: conversation_def add_messages_history initialize_conversation_fields
        new_ConversationEngine_def)

lemma conversation_context:
  "map_of (active_context (conversation uni now topic ps context intent calls)) k =
     (if k = ustr ''/context'' \<or> k = ustr ''/focus''
      then last_declared k (conversation_history (conversation uni now topic ps context intent calls))
      else map_of (init_tokens topic ps context intent) k)"
proof -
  let ?ms = "map (\<lambda>(now, s, ag, aty). parse_message uni now s ag aty) calls"
  let ?init = "initialize_conversation new_ConversationEngine now topic ps context intent"
  have h: "last_declared k (conversation_history (conversation uni now topic ps context intent calls)) =
        (case last_declared k ?ms of
           Some v \<Rightarrow> Some v
         | None \<Rightarrow> map_of (init_tokens topic ps context intent) k)"
  proof -
    have "conversation_history (conversation uni now topic ps context intent calls) = [fst ?init] @ ?ms"
      by (simp add: conversation_history_value)
    then show ?thesis
      by (simp only: last_declared_append)
         (simp add: initialize_conversation_fields split: option.splits)
  qed
  have c: "map_of (active_context (conversation uni now topic ps context intent calls)) k =
     (if k = ustr ''/context'' \<or> k = ustr ''/focus''
      then (case last_declared k ?ms of
              Some v \<Rightarrow> Some v
            | None \<Rightarrow> map_of (init_tokens topic ps context intent) k)
      else map_of (init_tokens topic ps context intent) k)"
    by (simp only: conversation_def add_messages_context initialize_conversation_fields)
  show ?thesis by (simp only: h c)
qed

lemma init_tokens_sticky:
  "map_of (init_tokens topic ps context intent) (ustr ''/context'') \<noteq> None"
  "map_of (init_tokens topic ps context intent) (ustr ''/focus'') \<noteq> None"
  by (simp_all add: init_tokens_value ustr_def)

text \<open>
  C6. Through a conversation, the entries of the active context for \<open>/context\<close> and
  \<open>/focus\<close> are those of the last message of the history that declares the key, the
  initialization message included, and both are present. Every other key keeps what
  the initialization gave it: the initialization copies all of its tokens into the
  active context, and no later message changes them or adds a key. On an engine that
  was never initialized, \<open>/context\<close> and \<open>/focus\<close> follow the history in the same way
  and no other key is ever present.
\<close>

theorem active_context_follows_history:
  "((k = ustr ''/context'' \<or> k = ustr ''/focus'') \<longrightarrow>
      map_of (active_context (conversation uni now topic ps context intent calls)) k
        = last_declared k (conversation_history (conversation uni now topic ps context intent calls))
      \<and> map_of (active_context (conversation uni now topic ps context intent calls)) k \<noteq> None)
   \<and> (k \<noteq> ustr ''/context'' \<and> k \<noteq> ustr ''/focus'' \<longrightarrow>
      map_of (active_context (conversation uni now topic ps context intent calls)) k
        = map_of (init_tokens topic ps context intent) k)
   \<and> ((k = ustr ''/context'' \<or> k = ustr ''/focus'') \<longrightarrow>
      map_of (active_context (add_messages uni new_ConversationEngine calls)) k
        = last_declared k (conversation_history (add_messages uni new_ConversationEngine calls)))
   \<and> (k \<noteq> ustr ''/context'' \<and> k \<noteq> ustr ''/focus'' \<longrightarrow>
      map_of (active_context (add_messages uni new_ConversationEngine calls)) k = None)"
proof -
  have a: "map_of (active_context (conversation uni now topic ps context intent calls)) k \<noteq> None"
    if "k = ustr ''/context'' \<or> k = ustr ''/focus''"
    using that init_tokens_sticky [of topic ps "context" intent]
    by (auto simp: conversation_def add_messages_context initialize_conversation_fields
          split: option.splits)
  have b: "map_of (active_context (add_messages uni new_ConversationEngine calls)) k =
     (if k = ustr ''/context'' \<or> k = ustr ''/focus''
      then last_declared k (conversation_history (add_messages uni new_ConversationEngine calls))
      else None)"
    by (simp add: add_messages_context add_messages_history new_ConversationEngine_def
          split: option.splits)
  from a b show ?thesis by (simp add: conversation_context)
qed

lemma parse_context_line:
  "tokens (parse_message ascii_only [] (ustr ''/context: c2'') (ustr ''Human'') HUMAN)
     = [(ustr ''/context'', ustr ''c2'')]"
  by (simp add: parse_message_fields store_match_def dict_get_def CORE_TOKENS_value strip_def
        rx_defs ascii_only_def ustr_def)

theorem active_context_follows_history_witness:
  "map_of (active_context
       (conversation ascii_only [] (ustr ''t'') [ustr ''A''] [] []
          [([], ustr ''/context: c2'', ustr ''Human'', HUMAN)])) (ustr ''/context'')
     = last_declared (ustr ''/context'')
         (conversation_history
            (conversation ascii_only [] (ustr ''t'') [ustr ''A''] [] []
               [([], ustr ''/context: c2'', ustr ''Human'', HUMAN)]))
   \<and> last_declared (ustr ''/context'')
         (conversation_history
            (conversation ascii_only [] (ustr ''t'') [ustr ''A''] [] []
               [([], ustr ''/context: c2'', ustr ''Human'', HUMAN)])) = Some (ustr ''c2'')
   \<and> map_of (active_context
       (conversation ascii_only [] (ustr ''t'') [ustr ''A''] [] []
          [([], ustr ''/context: c2'', ustr ''Human'', HUMAN)])) (ustr ''/mind'')
     = Some (ustr ''A'')"
proof -
  have 1: "last_declared (ustr ''/context'')
         (conversation_history
            (conversation ascii_only [] (ustr ''t'') [ustr ''A''] [] []
               [([], ustr ''/context: c2'', ustr ''Human'', HUMAN)])) = Some (ustr ''c2'')"
    by (simp add: conversation_history_value parse_context_line)
  have 2: "map_of (init_tokens (ustr ''t'') [ustr ''A''] [] []) (ustr ''/mind'') = Some (ustr ''A'')"
    by (simp add: init_tokens_value)
  have 3: "ustr ''/mind'' \<noteq> ustr ''/context''" "ustr ''/mind'' \<noteq> ustr ''/focus''"
    by (simp_all add: ustr_def)
  from 1 2 3
    active_context_follows_history [of "ustr ''/context''" ascii_only "[]" "ustr ''t''"
      "[ustr ''A'']" "[]" "[]" "[([], ustr ''/context: c2'', ustr ''Human'', HUMAN)]"]
    active_context_follows_history [of "ustr ''/mind''" ascii_only "[]" "ustr ''t''"
      "[ustr ''A'']" "[]" "[]" "[([], ustr ''/context: c2'', ustr ''Human'', HUMAN)]"]
  show ?thesis by simp
qed

lemma parse_mind_line:
  "tokens (parse_message ascii_only [] (ustr ''/mind: Bob'') (ustr ''Human'') HUMAN)
     = [(ustr ''/mind'', ustr ''Bob'')]"
  by (simp add: parse_message_fields store_match_def dict_get_def CORE_TOKENS_value strip_def
        rx_defs ascii_only_def ustr_def)

lemma parse_note_line:
  "tokens (parse_message ascii_only [] (ustr ''/note: hi'') (ustr ''Human'') HUMAN)
     = [(ustr ''/note'', ustr ''hi'')]"
  by (simp add: parse_message_fields store_match_def dict_get_def CORE_TOKENS_value strip_def
        rx_defs ascii_only_def ustr_def)

text \<open>
  The claim as it is stated fails. After the initialization with the participant
  \<open>A\<close>, a message that declares \<open>/mind: Bob\<close> is the last to declare \<open>/mind\<close>, yet the
  active context still maps \<open>/mind\<close> to \<open>A\<close>; and a message that declares
  \<open>/note: hi\<close> leaves \<open>/note\<close> absent from the active context although a message has
  declared it.
\<close>

theorem active_context_counterexample:
  "map_of (active_context
       (conversation ascii_only [] (ustr ''t'') [ustr ''A''] [] []
          [([], ustr ''/mind: Bob'', ustr ''Human'', HUMAN)])) (ustr ''/mind'')
     = Some (ustr ''A'')
   \<and> last_declared (ustr ''/mind'')
         (conversation_history
            (conversation ascii_only [] (ustr ''t'') [ustr ''A''] [] []
               [([], ustr ''/mind: Bob'', ustr ''Human'', HUMAN)])) = Some (ustr ''Bob'')
   \<and> map_of (active_context
       (conversation ascii_only [] (ustr ''t'') [ustr ''A''] [] []
          [([], ustr ''/note: hi'', ustr ''Human'', HUMAN)])) (ustr ''/note'')
     = None
   \<and> last_declared (ustr ''/note'')
         (conversation_history
            (conversation ascii_only [] (ustr ''t'') [ustr ''A''] [] []
               [([], ustr ''/note: hi'', ustr ''Human'', HUMAN)])) = Some (ustr ''hi'')"
proof -
  have 1: "ustr ''/mind'' \<noteq> ustr ''/context''" "ustr ''/mind'' \<noteq> ustr ''/focus''"
    "ustr ''/note'' \<noteq> ustr ''/context''" "ustr ''/note'' \<noteq> ustr ''/focus''"
    by (simp_all add: ustr_def)
  have 2: "map_of (init_tokens (ustr ''t'') [ustr ''A''] [] []) (ustr ''/mind'') = Some (ustr ''A'')"
    by (simp add: init_tokens_value)
  have 3: "map_of (init_tokens (ustr ''t'') [ustr ''A''] [] []) (ustr ''/note'') = None"
    by (simp add: init_tokens_value ustr_def)
  have 4: "last_declared (ustr ''/mind'')
         (conversation_history
            (conversation ascii_only [] (ustr ''t'') [ustr ''A''] [] []
               [([], ustr ''/mind: Bob'', ustr ''Human'', HUMAN)])) = Some (ustr ''Bob'')"
    by (simp add: conversation_history_value parse_mind_line)
  have 5: "last_declared (ustr ''/note'')
         (conversation_history
            (conversation ascii_only [] (ustr ''t'') [ustr ''A''] [] []
               [([], ustr ''/note: hi'', ustr ''Human'', HUMAN)])) = Some (ustr ''hi'')"
    by (simp add: conversation_history_value parse_note_line)
  from 1 2 3 4 5 show ?thesis by (simp add: conversation_context)
qed

section \<open>Matches at the start of a text\<close>

lemma after_token_colon:
  "after_token uni tok r = Some m \<Longrightarrow> \<exists>r'. r = colon # r'"
  by (auto simp: after_token_def split: list.splits if_splits)

lemma match_here_token:
  assumes "token_shape uni tok" and "after_token uni tok r = Some m"
  shows "match_here uni (tok @ r) = Some m"
proof -
  from assms(1) obtain c w where tok: "tok = c # w" by (cases tok) (auto simp: token_shape_def)
  show ?thesis
  proof (cases "in_class c \<and> w = []")
    case True
    with assms(2) tok show ?thesis by (simp add: match_here_def)
  next
    case False
    with assms(1) tok have c: "c = slash" and w: "w \<noteq> []" "list_all (is_word uni) w"
      by (auto simp: token_shape_def)
    then obtain d w' where dw: "w = d # w'" by (cases w) auto
    from after_token_colon [OF assms(2)] obtain r' where r: "r = colon # r'" by blast
    have "greedy_star (is_word uni) (\<lambda>w r. after_token uni (c # w) r) [d] (w' @ r) = Some m"
      using w dw assms(2) tok r by (intro greedy_star_longest) (auto simp: colon_not_word)
    with c w dw tok slash_not_in_class show ?thesis
      by (simp add: match_here_def greedy_plus_def)
  qed
qed

lemma greedy_star_give_back:
  "list_all p (ws @ [l]) \<Longrightarrow> k (acc @ ws @ [l]) [] = None \<Longrightarrow> k (acc @ ws) [l] = Some x \<Longrightarrow>
     greedy_star p k acc (ws @ [l]) = Some x"
proof (induction ws arbitrary: acc)
  case Nil
  then show ?case by simp
next
  case (Cons w ws)
  from Cons.prems have "greedy_star p k (acc @ [w]) (ws @ [l]) = Some x"
    by (intro Cons.IH) auto
  with Cons.prems show ?case by simp
qed

lemma colon_not_in_token: "token_shape uni tok \<Longrightarrow> colon \<notin> set tok"
proof -
  assume sh: "token_shape uni tok"
  then obtain c w where tok: "tok = c # w" by (cases tok) (auto simp: token_shape_def)
  have "slash \<noteq> colon" by (simp add: slash_def colon_def)
  moreover have "colon \<notin> set w" if "list_all (is_word uni) w"
    using that colon_not_word by (auto simp: list_all_iff)
  ultimately show ?thesis
    using sh tok colon_not_in_class by (auto simp: token_shape_def)
qed

lemma match_here_inner_colon:
  assumes "match_here uni s = Some (tok, v, r)"
  shows "colon \<in> set (butlast s)"
proof -
  from match_here_split [OF assms] obtain ws where
    s: "s = tok @ colon # ws @ v @ r" and v: "v \<noteq> []" by blast
  from v have "butlast s = tok @ colon # butlast (ws @ v @ r)"
    by (simp add: s butlast_append)
  then show ?thesis by simp
qed

lemma findall_only_final_colon: "colon \<notin> set t \<Longrightarrow> findall uni (t @ [colon]) = []"
proof (induction t)
  case Nil
  have "match_here uni [colon] = None"
    using match_here_inner_colon [of uni "[colon]"] by (cases "match_here uni [colon]") auto
  then show ?case by (simp add: findall_no_match findall_Nil)
next
  case (Cons c t)
  have "match_here uni (c # t @ [colon]) = None"
  proof (cases "match_here uni (c # t @ [colon])")
    case None
    then show ?thesis .
  next
    case (Some m)
    obtain tok v r where "m = (tok, v, r)" by (cases m)
    with Some match_here_inner_colon [of uni "c # t @ [colon]" tok v r] Cons.prems
    show ?thesis by (simp add: butlast_append)
  qed
  with Cons show ?case by (simp add: findall_no_match)
qed

lemma strip_space: "is_space l \<Longrightarrow> strip [l] = []"
  by (simp add: strip_def)

lemma parse_token_spaces:
  assumes "token_shape uni tok" and "list_all is_space ws"
  shows "tokens (parse_message uni now (tok @ colon # ws) ag aty) =
           (if ws = [] then [] else [(dict_get CORE_TOKENS tok tok, [])])"
proof (cases "ws = []")
  case True
  from colon_not_in_token [OF assms(1)] have "findall uni (tok @ [colon]) = []"
    by (rule findall_only_final_colon)
  with True show ?thesis by (simp add: parse_message_fields)
next
  case False
  then obtain ws' l where ws: "ws = ws' @ [l]" by (cases ws rule: rev_cases) auto
  with assms(2) have l: "is_space l" by simp
  let ?k = "\<lambda>(_::ustring) r. case dot_plus_lazy uni r of None \<Rightarrow> None | Some (v, r') \<Rightarrow> Some (tok, v, r')"
  have "greedy_star is_space ?k [] (ws' @ [l]) = Some (tok, [l], [])"
    using assms(2) ws by (intro greedy_star_give_back) (auto simp: lookahead_Nil)
  then have "after_token uni tok (colon # ws) = Some (tok, [l], [])"
    by (simp add: after_token_def ws)
  from match_here_token [OF assms(1) this]
  have "findall uni (tok @ colon # ws) = [(tok, [l])]"
    by (simp add: findall_match findall_Nil)
  with False l show ?thesis
    by (simp add: parse_message_fields store_match_def strip_space)
qed

section \<open>Declarations without a value\<close>

text \<open>
  C10. A text that is one token, a colon and nothing else gives no entry. When
  whitespace follows the colon up to the end of the text, the pattern gives the last
  whitespace character back to the value group, so the declaration is found, and the
  token is mapped to the empty string.
\<close>

theorem empty_declaration:
  "token_shape uni tok \<Longrightarrow> list_all is_space ws \<Longrightarrow>
     tokens (parse_message uni now (tok @ colon # ws) ag aty) =
       (if ws = [] then [] else [(dict_get CORE_TOKENS tok tok, [])])"
  by (rule parse_token_spaces)

theorem empty_declaration_witness:
  "token_shape ascii_only [0x1F680] \<and> list_all is_space [] \<and> list_all is_space [32, 9]
   \<and> tokens (parse_message ascii_only [] ([0x1F680] @ colon # []) (ustr ''Human'') HUMAN) = []
   \<and> tokens (parse_message ascii_only [] ([0x1F680] @ colon # [32, 9]) (ustr ''Human'') HUMAN)
       = [(ustr ''/act'', [])]"
proof -
  have 1: "token_shape ascii_only [0x1F680]"
    by (simp add: token_shape_def in_class_def symbol_class_def)
  have 2: "list_all is_space []" "list_all is_space [32, 9]"
    by (simp_all add: is_space_def)
  have 3: "dict_get CORE_TOKENS [0x1F680] [0x1F680] = ustr ''/act''"
    by (simp add: dict_get_def CORE_TOKENS_value)
  from 1 2 3 empty_declaration [OF 1 2(1), of "[]" "ustr ''Human''" HUMAN]
    empty_declaration [OF 1 2(2), of "[]" "ustr ''Human''" HUMAN]
  show ?thesis by simp
qed

text \<open>
  The claim as it is stated fails on its own second example, the symbol of the action
  token, a colon and two spaces: the token is not dropped, it is mapped to the empty
  string.
\<close>

theorem empty_declaration_counterexample:
  "tokens (parse_message ascii_only [] [0x1F680, 58, 32, 32] (ustr ''Human'') HUMAN)
     = [(ustr ''/act'', [])]
   \<and> tokens (parse_message ascii_only [] [0x1F680, 58, 32, 32] (ustr ''Human'') HUMAN) \<noteq> []"
  by (simp add: parse_message_fields store_match_def dict_get_def CORE_TOKENS_value strip_def
        rx_defs ascii_only_def ustr_def)

section \<open>Formatting and parsing again\<close>

lemma newline_not_slash: "newline \<noteq> slash" and newline_not_colon: "newline \<noteq> colon"
  by (simp_all add: newline_def slash_def colon_def)

lemma match_here_newline: "match_here uni (newline # s) = None"
  by (simp add: match_here_def newline_not_in_class newline_not_slash)

lemma slash_word_colon_cut:
  assumes "slash_word_colon uni (s @ newline # rest)"
  shows "slash_word_colon uni s"
proof -
  from assms obtain w r where eq: "s @ newline # rest = slash # w @ colon # r"
    and w: "w \<noteq> []" "list_all (is_word uni) w"
    unfolding slash_word_colon_iff by blast
  have nl: "newline \<notin> set (slash # w @ [colon])"
    using w newline_not_word newline_not_slash newline_not_colon by (auto simp: list_all_iff)
  from eq have "s @ newline # rest = (slash # w @ [colon]) @ r" by simp
  then obtain us where
    "s = (slash # w @ [colon]) @ us \<and> us @ newline # rest = r
     \<or> s @ us = slash # w @ [colon] \<and> newline # rest = us @ r"
    unfolding append_eq_append_conv2 by blast
  then show ?thesis
  proof
    assume "s = (slash # w @ [colon]) @ us \<and> us @ newline # rest = r"
    then have "s = slash # w @ colon # us" by simp
    with w show ?thesis unfolding slash_word_colon_iff by blast
  next
    assume a: "s @ us = slash # w @ [colon] \<and> newline # rest = us @ r"
    show ?thesis
    proof (cases us)
      case Nil
      with a have "s = slash # w @ colon # []" by simp
      with w show ?thesis unfolding slash_word_colon_iff by blast
    next
      case (Cons u us')
      with a have "u = newline" by simp
      with Cons have "newline \<in> set (s @ us)" by simp
      with a nl show ?thesis by simp
    qed
  qed
qed

lemma no_lookahead_inside:
  assumes "c \<noteq> newline" and "\<not> slash_word_colon uni (c # cs)"
    and "rest = [] \<or> (\<exists>r. rest = newline # r)"
  shows "\<not> lookahead uni (c # cs @ rest)"
proof -
  have "\<not> slash_word_colon uni (c # cs @ rest)"
  proof (cases rest)
    case Nil
    with assms(2) show ?thesis by simp
  next
    case (Cons a r)
    with assms(3) have "rest = newline # r" by simp
    with assms(2) slash_word_colon_cut [of uni "c # cs" r] show ?thesis by auto
  qed
  with assms(1) show ?thesis
    by (simp add: lookahead_def newline_symbol_def end_of_line_def split: list.splits)
qed

lemma lookahead_line_end: "rest = [] \<or> (\<exists>r. rest = newline # r) \<Longrightarrow> lookahead uni rest"
  by (auto simp: lookahead_def end_of_line_def)

lemma dot_plus_lazy_line:
  "single_line uni cs \<Longrightarrow> rest = [] \<or> (\<exists>r. rest = newline # r) \<Longrightarrow>
     dot_plus_lazy uni (c # cs @ rest) = Some (c # cs, rest)"
proof (induction cs arbitrary: c)
  case Nil
  then show ?case by (simp add: lookahead_line_end)
next
  case (Cons d ds)
  from Cons.prems have "\<not> lookahead uni (d # ds @ rest)"
    by (intro no_lookahead_inside) auto
  moreover from Cons.prems have "dot_plus_lazy uni (d # ds @ rest) = Some (d # ds, rest)"
    by (intro Cons.IH) auto
  ultimately show ?case by simp
qed

lemma space_is_space: "is_space 32"
  by (simp add: is_space_def)

lemma colon_space: "ustr '': '' = [colon, 32]"
  by (simp add: ustr_def colon_def)

lemma match_here_line:
  assumes "token_shape uni tok" and "plain_value uni v"
    and "rest = [] \<or> (\<exists>r. rest = newline # r)"
  shows "match_here uni (tok @ ustr '': '' @ v @ rest) = Some (tok, v, rest)"
proof -
  from assms(2) obtain c cs where v: "v = c # cs" and c: "\<not> is_space c"
    and sl: "single_line uni cs"
    by (cases v) (auto simp: plain_value_def)
  let ?k = "\<lambda>(_::ustring) r. case dot_plus_lazy uni r of None \<Rightarrow> None | Some (v, r') \<Rightarrow> Some (tok, v, r')"
  have d: "dot_plus_lazy uni (v @ rest) = Some (v, rest)"
    using dot_plus_lazy_line [OF sl assms(3)] by (simp add: v)
  have "greedy_star is_space ?k [] ([32] @ (v @ rest)) = Some (tok, v, rest)"
    using d c by (intro greedy_star_longest) (auto simp: space_is_space v)
  then have "after_token uni tok (colon # 32 # v @ rest) = Some (tok, v, rest)"
    by (simp add: after_token_def)
  from match_here_token [OF assms(1) this] show ?thesis by (simp add: colon_space)
qed

lemma dropWhile_head: "v \<noteq> [] \<Longrightarrow> \<not> p (hd v) \<Longrightarrow> dropWhile p v = v"
  by (cases v) auto

lemma strip_plain: "plain_value uni v \<Longrightarrow> strip v = v"
proof -
  assume pv: "plain_value uni v"
  then have v: "v \<noteq> []" and h: "\<not> is_space (hd v)" and l: "\<not> is_space (last v)"
    by (auto simp: plain_value_def split: list.splits)
  from v l have "dropWhile is_space (rev v) = rev v"
    by (intro dropWhile_head) (auto simp: hd_rev)
  with v h show ?thesis by (simp add: strip_def dropWhile_head)
qed

text \<open>The token that \<open>format_message\<close> writes for a key.\<close>

lemma format_message_lines:
  "format_message toks b =
     join [newline]
       (map (\<lambda>(k, v). (if b \<and> dict_has SLASH_TO_EMOJI k then dict_get SLASH_TO_EMOJI k k else k)
                       @ ustr '': '' @ v) toks)"
  by (simp add: format_message_def Let_def)

lemma single_symbols_in_class:
  "list_all (\<lambda>(k, e). length e = 1 \<longrightarrow> in_class (hd e)) SLASH_TO_EMOJI"
  by (simp add: SLASH_TO_EMOJI_value in_class_def symbol_class_def)

lemma CORE_TOKENS_no_slash: "map_of CORE_TOKENS (slash # w) = None"
  by (simp add: CORE_TOKENS_value slash_def)

lemma display_token:
  assumes "canonical_key uni k" and "single_symbol b k"
  defines "t \<equiv> (if b \<and> dict_has SLASH_TO_EMOJI k then dict_get SLASH_TO_EMOJI k k else k)"
  shows "token_shape uni t \<and> dict_get CORE_TOKENS t t = k"
proof (cases "b \<and> dict_has SLASH_TO_EMOJI k")
  case True
  then obtain e where e: "map_of SLASH_TO_EMOJI k = Some e"
    by (auto simp: dict_has_def)
  with True assms(2) have "length e = 1" by (simp add: single_symbol_def)
  then obtain c where c: "e = [c]" by (cases e) auto
  from e have "(k, e) \<in> set SLASH_TO_EMOJI" by (rule map_of_SomeD)
  with single_symbols_in_class c have "in_class c" by (auto simp: list_all_iff)
  moreover from e have "map_of CORE_TOKENS e = Some k" by (simp add: SLASH_TO_EMOJI_inverse)
  ultimately show ?thesis using True e c
    by (simp add: t_def dict_get_def token_shape_def)
next
  case False
  from assms(1) obtain w where k: "k = slash # w" and "w \<noteq> []" "list_all (is_word uni) w"
    by (cases k) (auto simp: canonical_key_def)
  then have sh: "token_shape uni k" by (simp add: token_shape_def)
  from False have "t = k" unfolding t_def by (rule if_not_P)
  with sh k show ?thesis by (simp add: dict_get_def CORE_TOKENS_no_slash)
qed

lemma findall_formatted:
  assumes "list_all (\<lambda>(t, v). token_shape uni t \<and> plain_value uni v) ls"
  shows "findall uni (join [newline] (map (\<lambda>(t, v). t @ ustr '': '' @ v) ls)) = ls"
  using assms
proof (induction ls rule: induct_list012)
  case 1
  then show ?case by (simp add: findall_Nil)
next
  case (2 l)
  obtain t v where l: "l = (t, v)" by (cases l)
  with 2 have "match_here uni (t @ ustr '': '' @ v @ []) = Some (t, v, [])"
    by (intro match_here_line) auto
  then show ?case by (simp add: l findall_match findall_Nil)
next
  case (3 l m ls)
  obtain t v where l: "l = (t, v)" by (cases l)
  let ?rest = "join [newline] (map (\<lambda>(t, v). t @ ustr '': '' @ v) (m # ls))"
  from 3 l have "match_here uni (t @ ustr '': '' @ v @ (newline # ?rest)) = Some (t, v, newline # ?rest)"
    by (intro match_here_line) auto
  then have "findall uni (t @ ustr '': '' @ v @ (newline # ?rest)) = (t, v) # findall uni (newline # ?rest)"
    by (rule findall_match)
  also have "findall uni (newline # ?rest) = findall uni ?rest"
    by (simp add: findall_no_match match_here_newline)
  also have "\<dots> = m # ls" using 3 by simp
  finally show ?case by (simp add: l)
qed

lemma store_matches_distinct:
  "distinct (map fst d @ map (\<lambda>(t, v). dict_get CORE_TOKENS t t) ms) \<Longrightarrow>
     foldl store_match d ms = d @ map (\<lambda>(t, v). (dict_get CORE_TOKENS t t, strip v)) ms"
proof (induction ms arbitrary: d)
  case Nil
  then show ?case by simp
next
  case (Cons m ms)
  obtain t v where m: "m = (t, v)" by (cases m)
  from Cons.prems m have new: "dict_get CORE_TOKENS t t \<notin> set (map fst d)" by auto
  then have s: "store_match d m = d @ [(dict_get CORE_TOKENS t t, strip v)]"
    by (simp add: store_match_def m dict_set_new)
  from Cons.prems m have "distinct (map fst (store_match d m) @ map (\<lambda>(t, v). dict_get CORE_TOKENS t t) ms)"
    unfolding s by auto
  from Cons.IH [OF this] show ?case by (simp add: s [unfolded m] m)
qed

lemma parse_formatted:
  assumes "roundtrip_mapping uni b toks"
  shows "tokens (parse_message uni now (format_message toks b) ag aty) = toks"
proof -
  let ?disp = "\<lambda>k. if b \<and> dict_has SLASH_TO_EMOJI k then dict_get SLASH_TO_EMOJI k k else k"
  let ?ls = "map (\<lambda>(k, v). (?disp k, v)) toks"
  from assms have ok: "\<And>k v. (k, v) \<in> set toks \<Longrightarrow>
      canonical_key uni k \<and> single_symbol b k \<and> plain_value uni v"
    and dist: "distinct (map fst toks)"
    by (auto simp: roundtrip_mapping_def list_all_iff)
  have f: "format_message toks b = join [newline] (map (\<lambda>(t, v). t @ ustr '': '' @ v) ?ls)"
    by (simp add: format_message_lines case_prod_unfold comp_def)
  have "list_all (\<lambda>(t, v). token_shape uni t \<and> plain_value uni v) ?ls"
    using ok display_token by (fastforce simp: list_all_iff)
  then have m: "findall uni (format_message toks b) = ?ls"
    unfolding f by (rule findall_formatted)
  have r: "map (\<lambda>(t, v). (dict_get CORE_TOKENS t t, strip v)) ?ls = toks"
  proof -
    have "map (\<lambda>(t, v). (dict_get CORE_TOKENS t t, strip v)) ?ls = map (\<lambda>kv. kv) toks"
      unfolding map_map
    proof (rule map_cong [OF refl])
      fix kv assume in_toks: "kv \<in> set toks"
      obtain k v where kv: "kv = (k, v)" by (cases kv)
      with in_toks have "(k, v) \<in> set toks" by simp
      with kv ok display_token [of uni k b] strip_plain [of uni v]
      show "((\<lambda>(t, v). (dict_get CORE_TOKENS t t, strip v)) \<circ> (\<lambda>(k, v). (?disp k, v))) kv = kv"
        by simp
    qed
    then show ?thesis by simp
  qed
  have ks: "map (\<lambda>(t, v). dict_get CORE_TOKENS t t) ?ls
      = map fst (map (\<lambda>(t, v). (dict_get CORE_TOKENS t t, strip v)) ?ls)"
    by (simp add: case_prod_unfold comp_def)
  have ks': "map (\<lambda>(t, v). dict_get CORE_TOKENS t t) ?ls = map fst toks"
    using ks unfolding r .
  have "distinct (map fst [] @ map (\<lambda>(t, v). dict_get CORE_TOKENS t t) ?ls)"
    unfolding ks' using dist by simp
  from store_matches_distinct [OF this] r m show ?thesis
    by (simp add: parse_message_fields)
qed

text \<open>
  C4. Formatting a mapping and parsing the text again gives the mapping back, with
  the same keys, values and order, in both notations, for the mappings that can be
  read back: the keys are distinct canonical identifiers (a slash and one or more word
  characters) and, when symbols are written, no key has a symbol of more than one
  code point; every value is not empty, has no whitespace at either end, is on one
  line, and has no \<open>/word:\<close> after its first character.
\<close>

theorem format_parse_roundtrip:
  "roundtrip_mapping uni use_emojis toks \<Longrightarrow>
     tokens (parse_message uni now (format_message toks use_emojis) ag aty) = toks"
  by (rule parse_formatted)

lemmas eval_defs = parse_message_fields store_match_def dict_get_def dict_has_def
  CORE_TOKENS_value SLASH_TO_EMOJI_value strip_def format_message_def rx_defs ascii_only_def
  ustr_def

theorem format_parse_roundtrip_witness:
  "roundtrip_mapping ascii_only True
     [(ustr ''/act'', ustr ''ship it''), (ustr ''/context'', ustr ''launch''),
      (ustr ''/goal'', ustr ''/x: y'')]
   \<and> roundtrip_mapping ascii_only False
     [(ustr ''/act'', ustr ''ship it''), (ustr ''/context'', ustr ''launch''),
      (ustr ''/goal'', ustr ''/x: y'')]
   \<and> format_message
       [(ustr ''/act'', ustr ''ship it''), (ustr ''/context'', ustr ''launch''),
        (ustr ''/goal'', ustr ''/x: y'')] True
       = [0x1F680] @ ustr '': ship it'' @ [newline] @ ustr ''/context: launch'' @ [newline]
         @ [0x1F3AF] @ ustr '': /x: y''
   \<and> tokens (parse_message ascii_only []
       (format_message
          [(ustr ''/act'', ustr ''ship it''), (ustr ''/context'', ustr ''launch''),
           (ustr ''/goal'', ustr ''/x: y'')] True) (ustr ''Human'') HUMAN)
       = [(ustr ''/act'', ustr ''ship it''), (ustr ''/context'', ustr ''launch''),
          (ustr ''/goal'', ustr ''/x: y'')]
   \<and> tokens (parse_message ascii_only []
       (format_message
          [(ustr ''/act'', ustr ''ship it''), (ustr ''/context'', ustr ''launch''),
           (ustr ''/goal'', ustr ''/x: y'')] False) (ustr ''Human'') HUMAN)
       = [(ustr ''/act'', ustr ''ship it''), (ustr ''/context'', ustr ''launch''),
          (ustr ''/goal'', ustr ''/x: y'')]"
proof -
  let ?T = "[(ustr ''/act'', ustr ''ship it''), (ustr ''/context'', ustr ''launch''),
      (ustr ''/goal'', ustr ''/x: y'')]"
  have 1: "roundtrip_mapping ascii_only True ?T"
    by (simp add: roundtrip_mapping_def canonical_key_def single_symbol_def plain_value_def
          SLASH_TO_EMOJI_value rx_defs ascii_only_def ustr_def)
  have 2: "roundtrip_mapping ascii_only False ?T"
    by (simp add: roundtrip_mapping_def canonical_key_def single_symbol_def plain_value_def
          SLASH_TO_EMOJI_value rx_defs ascii_only_def ustr_def)
  have 3: "format_message ?T True
       = [0x1F680] @ ustr '': ship it'' @ [newline] @ ustr ''/context: launch'' @ [newline]
         @ [0x1F3AF] @ ustr '': /x: y''"
    by (simp add: format_message_def dict_has_def dict_get_def SLASH_TO_EMOJI_value ustr_def
          newline_def)
  from 1 2 3 format_parse_roundtrip [OF 1, of "[]" "ustr ''Human''" HUMAN]
    format_parse_roundtrip [OF 2, of "[]" "ustr ''Human''" HUMAN]
  show ?thesis by (intro conjI)
qed

text \<open>
  The claim as it is stated fails, on mappings whose values have no line that starts
  with a symbol or a \<open>/word:\<close>. A value of two lines comes back as its first line. A
  value with a space in front comes back without it. A \<open>/word:\<close> in the middle of a
  line starts a new entry. And \<open>/meta\<close>, whose symbol is two code points, is written
  with that symbol and read back as \<open>/mind\<close>.
\<close>

theorem format_parse_roundtrip_counterexample:
  "tokens (parse_message ascii_only []
       (format_message [(ustr ''/act'', ustr ''a'' @ [newline] @ ustr ''b'')] True)
       (ustr ''Human'') HUMAN)
     = [(ustr ''/act'', ustr ''a'')]
   \<and> tokens (parse_message ascii_only []
       (format_message [(ustr ''/act'', ustr ''a'' @ [newline] @ ustr ''b'')] True)
       (ustr ''Human'') HUMAN)
     \<noteq> [(ustr ''/act'', ustr ''a'' @ [newline] @ ustr ''b'')]
   \<and> tokens (parse_message ascii_only []
       (format_message [(ustr ''/act'', ustr '' x'')] False) (ustr ''Human'') HUMAN)
     = [(ustr ''/act'', ustr ''x'')]
   \<and> tokens (parse_message ascii_only []
       (format_message [(ustr ''/act'', ustr ''see /note: this'')] False) (ustr ''Human'') HUMAN)
     = [(ustr ''/act'', ustr ''see''), (ustr ''/note'', ustr ''this'')]
   \<and> tokens (parse_message ascii_only []
       (format_message [(ustr ''/meta'', ustr ''x'')] True) (ustr ''Human'') HUMAN)
     = [(ustr ''/mind'', ustr ''x'')]"
  by (simp add: eval_defs)

section \<open>Segments\<close>

lemma set_dict_set: "set (dict_set d k v) \<subseteq> insert (k, v) (set d)"
  by (induction d) (auto split: if_splits)

lemma store_match_entries:
  "(k, x) \<in> set (foldl store_match d ms) \<Longrightarrow>
     (k, x) \<in> set d \<or>
     (\<exists>tok v. (tok, v) \<in> set ms \<and> k = dict_get CORE_TOKENS tok tok \<and> x = strip v)"
proof (induction ms arbitrary: d)
  case Nil
  then show ?case by simp
next
  case (Cons m ms)
  obtain tok v where m: "m = (tok, v)" by (cases m)
  from Cons.prems have "(k, x) \<in> set (foldl store_match (store_match d m) ms)" by simp
  from Cons.IH [OF this] show ?case
  proof
    assume "(k, x) \<in> set (store_match d m)"
    with set_dict_set [of d "dict_get CORE_TOKENS tok tok" "strip v"]
    have "(k, x) = (dict_get CORE_TOKENS tok tok, strip v) \<or> (k, x) \<in> set d"
      by (auto simp: store_match_def m)
    with m show ?thesis by auto
  next
    assume "\<exists>tok v. (tok, v) \<in> set ms \<and> k = dict_get CORE_TOKENS tok tok \<and> x = strip v"
    then show ?thesis by auto
  qed
qed

subsection \<open>Where a value begins and ends\<close>

lemma dot_plus_lazy_total: "s \<noteq> [] \<Longrightarrow> dot_plus_lazy uni s \<noteq> None"
proof (induction s)
  case Nil
  then show ?case by simp
next
  case (Cons c cs)
  then show ?case by (cases cs) (auto simp: lookahead_Nil split: option.splits)
qed

lemma dot_plus_lazy_minimal:
  "dot_plus_lazy uni s = Some (v, r) \<Longrightarrow> 0 < i \<Longrightarrow> i < length v \<Longrightarrow>
     \<not> lookahead uni (drop i v @ r)"
proof (induction s arbitrary: v i)
  case Nil
  then show ?case by simp
next
  case (Cons c cs)
  show ?case
  proof (cases "lookahead uni cs")
    case True
    with Cons.prems have "v = [c]" by simp
    with Cons.prems show ?thesis by simp
  next
    case False
    with Cons.prems obtain v' where d: "dot_plus_lazy uni cs = Some (v', r)" and v: "v = c # v'"
      by (auto split: option.splits)
    from dot_plus_lazy_split [OF d] have cs: "cs = v' @ r" by simp
    from Cons.prems obtain j where i: "i = Suc j" by (cases i) auto
    show ?thesis
    proof (cases j)
      case 0
      with i v cs False show ?thesis by simp
    next
      case (Suc j')
      with i v Cons.prems have "0 < j" "j < length v'" by simp_all
      from Cons.IH [OF d this] i v show ?thesis by simp
    qed
  qed
qed

lemma greedy_star_stop:
  assumes tot: "\<And>a r. r \<noteq> [] \<Longrightarrow> k a r \<noteq> None"
  shows "greedy_star p k acc s = Some x \<Longrightarrow>
     \<exists>ws r. s = ws @ r \<and> list_all p ws \<and> k (acc @ ws) r = Some x
       \<and> (case r of [] \<Rightarrow> True | c # r' \<Rightarrow> \<not> p c \<or> r' = [])"
proof (induction s arbitrary: acc)
  case Nil
  then have "[] = [] @ [] \<and> list_all p [] \<and> k (acc @ []) [] = Some x
       \<and> (case [] of [] \<Rightarrow> True | c # r' \<Rightarrow> \<not> p c \<or> r' = [])" by simp
  then show ?case by - (rule exI, rule exI, assumption)
next
  case (Cons c cs)
  show ?case
  proof (cases "p c")
    case False
    with Cons.prems have "k acc (c # cs) = Some x" by simp
    with False have "c # cs = [] @ (c # cs) \<and> list_all p [] \<and> k (acc @ []) (c # cs) = Some x
       \<and> (case c # cs of [] \<Rightarrow> True | c # r' \<Rightarrow> \<not> p c \<or> r' = [])" by simp
    then show ?thesis by - (rule exI, rule exI, assumption)
  next
    case True
    show ?thesis
    proof (cases "greedy_star p k (acc @ [c]) cs")
      case (Some y)
      with True Cons.prems have "greedy_star p k (acc @ [c]) cs = Some x" by simp
      from Cons.IH [OF this] show ?thesis
      proof (elim exE conjE)
        fix ws r
        assume "cs = ws @ r" and "list_all p ws" and "k ((acc @ [c]) @ ws) r = Some x"
          and "case r of [] \<Rightarrow> True | c # r' \<Rightarrow> \<not> p c \<or> r' = []"
        with True have "c # cs = (c # ws) @ r \<and> list_all p (c # ws)
           \<and> k (acc @ c # ws) r = Some x
           \<and> (case r of [] \<Rightarrow> True | c # r' \<Rightarrow> \<not> p c \<or> r' = [])" by simp
        then show ?thesis by - (rule exI, rule exI, assumption)
      qed
    next
      case None
      have e: "cs = []"
      proof (rule ccontr)
        assume "cs \<noteq> []"
        then have "k ((acc @ [c]) @ []) cs \<noteq> None" by (simp add: tot)
        with greedy_star_some [of p "[]" k "acc @ [c]" cs]
        have "greedy_star p k (acc @ [c]) cs \<noteq> None" by simp
        with None show False by simp
      qed
      with None True Cons.prems have "k acc [c] = Some x" by simp
      with e have "c # cs = [] @ [c] \<and> list_all p [] \<and> k (acc @ []) [c] = Some x
         \<and> (case [c] of [] \<Rightarrow> True | c # r' \<Rightarrow> \<not> p c \<or> r' = [])" by simp
      then show ?thesis by - (rule exI, rule exI, assumption)
    qed
  qed
qed

lemma after_token_value_extent:
  assumes "after_token uni tok s = Some (t, v, r)"
  shows "value_extent uni v r"
proof -
  let ?k = "\<lambda>(_::ustring) r. case dot_plus_lazy uni r of None \<Rightarrow> None | Some (v, r') \<Rightarrow> Some (tok, v, r')"
  from assms obtain cs where g: "greedy_star is_space ?k [] cs = Some (t, v, r)"
    by (auto simp: after_token_def split: list.splits if_splits)
  have tot: "\<And>a r. r \<noteq> [] \<Longrightarrow> ?k a r \<noteq> None"
    using dot_plus_lazy_total by (fastforce split: option.splits)
  have "\<exists>ws r0. cs = ws @ r0 \<and> list_all is_space ws \<and> ?k ([] @ ws) r0 = Some (t, v, r)
       \<and> (case r0 of [] \<Rightarrow> True | c # r' \<Rightarrow> \<not> is_space c \<or> r' = [])"
    using tot g by (rule greedy_star_stop)
  then obtain ws r0 where k: "?k ([] @ ws) r0 = Some (t, v, r)"
    and stop: "case r0 of [] \<Rightarrow> True | c # r' \<Rightarrow> \<not> is_space c \<or> r' = []" by blast
  from k have d: "dot_plus_lazy uni r0 = Some (v, r)" by (auto split: option.splits)
  from dot_plus_lazy_split [OF d] have r0: "r0 = v @ r" and v: "v \<noteq> []" and la: "lookahead uni r"
    by simp_all
  from v obtain c v' where cv: "v = c # v'" by (cases v) auto
  with stop r0 have start: "is_space c \<and> v' = [] \<and> r = [] \<or> \<not> is_space c" by auto
  have "\<not> newline_symbol (drop i v @ r) \<and> \<not> slash_word_colon uni (drop i v @ r)"
    if "0 < i" "i < length v" for i
    using dot_plus_lazy_minimal [OF d that] by (simp add: lookahead_def)
  then have "list_all
       (\<lambda>i. \<not> newline_symbol (drop i v @ r) \<and> \<not> slash_word_colon uni (drop i v @ r))
       [1..<length v]"
    by (simp add: list_all_iff)
  with start la cv show ?thesis by (simp add: value_extent_def)
qed

lemma match_here_value_extent:
  assumes "match_here uni s = Some (tok, v, r)"
  shows "value_extent uni v r"
proof -
  from assms obtain c cs where s: "s = c # cs"
    by (cases s) (auto simp: match_here_def)
  show ?thesis
  proof (cases "in_class c")
    case True
    with slash_not_in_class have "c \<noteq> slash" by auto
    with assms s True have "after_token uni [c] cs = Some (tok, v, r)"
      by (auto simp: match_here_def split: option.splits)
    then show ?thesis by (rule after_token_value_extent)
  next
    case False
    with assms s have
      g: "greedy_plus (is_word uni) (\<lambda>w r. after_token uni (c # w) r) cs = Some (tok, v, r)"
      by (auto simp: match_here_def split: if_splits)
    then obtain d ds where
      g': "greedy_star (is_word uni) (\<lambda>w r. after_token uni (c # w) r) [d] ds = Some (tok, v, r)"
      by (auto simp: greedy_plus_def split: list.splits if_splits)
    from greedy_star_split [OF g'] obtain w r0 where
      "after_token uni (c # [d] @ w) r0 = Some (tok, v, r)" by blast
    then show ?thesis by (rule after_token_value_extent)
  qed
qed

lemma findall_pairs_extent:
  "(tok, v) \<in> set (findall uni s) \<Longrightarrow>
     \<exists>pre ws post. s = pre @ tok @ colon # ws @ v @ post \<and> token_shape uni tok
       \<and> list_all is_space ws \<and> v \<noteq> [] \<and> value_extent uni v post"
proof (induction s rule: length_induct)
  case (1 s)
  show ?case
  proof (cases "match_here uni s")
    case None
    show ?thesis
    proof (cases s)
      case Nil
      with 1 show ?thesis by (simp add: findall_Nil)
    next
      case (Cons c cs)
      with None 1 have "(tok, v) \<in> set (findall uni cs)" by (simp add: findall_no_match)
      with 1 Cons obtain pre ws post where
        "cs = pre @ tok @ colon # ws @ v @ post" "token_shape uni tok"
        "list_all is_space ws" "v \<noteq> []" "value_extent uni v post" by fastforce
      then have "s = (c # pre) @ tok @ colon # ws @ v @ post \<and> token_shape uni tok
        \<and> list_all is_space ws \<and> v \<noteq> [] \<and> value_extent uni v post"
        using Cons by simp
      then show ?thesis by blast
    qed
  next
    case (Some m)
    obtain tok' v' r where m: "m = (tok', v', r)" by (cases m)
    from Some m have mh: "match_here uni s = Some (tok', v', r)" by simp
    from match_here_split [OF mh] obtain ws where
      sh: "token_shape uni tok'" and s: "s = tok' @ colon # ws @ v' @ r"
      and ws: "list_all is_space ws" and v': "v' \<noteq> []" by blast
    note ext = match_here_value_extent [OF mh]
    from 1 findall_match [OF mh] have "(tok, v) = (tok', v') \<or> (tok, v) \<in> set (findall uni r)"
      by simp
    then show ?thesis
    proof
      assume "(tok, v) = (tok', v')"
      with sh s ws v' ext have "s = [] @ tok @ colon # ws @ v @ r \<and> token_shape uni tok
        \<and> list_all is_space ws \<and> v \<noteq> [] \<and> value_extent uni v r" by simp
      then show ?thesis by blast
    next
      assume a: "(tok, v) \<in> set (findall uni r)"
      from match_here_shorter [OF mh] 1 a obtain pre ws' post where
        "r = pre @ tok @ colon # ws' @ v @ post" "token_shape uni tok"
        "list_all is_space ws'" "v \<noteq> []" "value_extent uni v post" by fastforce
      then have "s = (tok' @ colon # ws @ v' @ pre) @ tok @ colon # ws' @ v @ post
        \<and> token_shape uni tok \<and> list_all is_space ws' \<and> v \<noteq> [] \<and> value_extent uni v post"
        using s by simp
      then show ?thesis by blast
    qed
  qed
qed

lemma parse_message_entry:
  assumes "(k, x) \<in> set (tokens (parse_message uni now s ag aty))"
  shows "\<exists>tok v pre ws post a b.
           s = pre @ tok @ colon # ws @ v @ post \<and> token_shape uni tok \<and> list_all is_space ws
           \<and> v \<noteq> [] \<and> value_extent uni v post \<and> k = dict_get CORE_TOKENS tok tok
           \<and> v = a @ x @ b \<and> list_all is_space a \<and> list_all is_space b \<and> x = strip v
           \<and> (x \<noteq> [] \<longrightarrow> \<not> is_space (hd x) \<and> \<not> is_space (last x))"
proof -
  from assms store_match_entries [of k x "[]" "findall uni s"] obtain tok v where
    tv: "(tok, v) \<in> set (findall uni s)" and k: "k = dict_get CORE_TOKENS tok tok"
    and x: "x = strip v"
    by (auto simp: parse_message_fields)
  from findall_pairs_extent [OF tv] obtain pre ws post where
    "s = pre @ tok @ colon # ws @ v @ post" "token_shape uni tok" "list_all is_space ws" "v \<noteq> []"
    "value_extent uni v post"
    by blast
  moreover from strip_split [of v] x obtain a b where
    "v = a @ x @ b" "list_all is_space a" "list_all is_space b" by blast
  moreover from strip_ends [of v] x
  have "x \<noteq> [] \<longrightarrow> \<not> is_space (hd x) \<and> \<not> is_space (last x)" by simp
  ultimately show ?thesis using k x by blast
qed

subsection \<open>A declaration is found\<close>

lemma slash_not_word: "\<not> is_word uni slash" and slash_not_colon: "slash \<noteq> colon"
  by (simp_all add: is_word_def slash_def colon_def)

lemma lookahead_first: "lookahead uni (d # r) \<Longrightarrow> d = newline \<or> d = slash"
  by (auto simp: lookahead_def newline_symbol_def slash_word_colon_def end_of_line_def
        split: list.splits)

lemma slash_word_colon_within:
  assumes "slash_word_colon uni (s @ d # rest)" and "s \<noteq> []"
    and "\<not> is_word uni d" and "d \<noteq> colon"
  shows "slash_word_colon uni s"
proof -
  from assms(1) obtain w r where eq: "s @ d # rest = slash # w @ colon # r"
    and w: "w \<noteq> []" "list_all (is_word uni) w"
    unfolding slash_word_colon_iff by blast
  from assms(2) obtain c cs where s: "s = c # cs" by (cases s) auto
  with eq have c: "c = slash" and "cs @ d # rest = (w @ [colon]) @ r" by simp_all
  then obtain us where
    "cs = (w @ [colon]) @ us \<and> us @ d # rest = r
     \<or> cs @ us = w @ [colon] \<and> d # rest = us @ r"
    unfolding append_eq_append_conv2 by blast
  then show ?thesis
  proof
    assume "cs = (w @ [colon]) @ us \<and> us @ d # rest = r"
    with s c have "s = slash # w @ colon # us" by simp
    with w show ?thesis unfolding slash_word_colon_iff by blast
  next
    assume a: "cs @ us = w @ [colon] \<and> d # rest = us @ r"
    show ?thesis
    proof (cases us)
      case Nil
      with a s c have "s = slash # w @ colon # []" by simp
      with w show ?thesis unfolding slash_word_colon_iff by blast
    next
      case (Cons u us')
      with a have "u = d" by simp
      with Cons have "d \<in> set (cs @ us)" by simp
      with a have "d \<in> set (w @ [colon])" by simp
      with w assms(3,4) show ?thesis by (auto simp: list_all_iff)
    qed
  qed
qed

lemma no_lookahead_within:
  assumes "c \<noteq> newline" and "\<not> slash_word_colon uni (c # cs)" and "lookahead uni rest"
  shows "\<not> lookahead uni (c # cs @ rest)"
proof -
  have "\<not> slash_word_colon uni (c # cs @ rest)"
  proof (cases rest)
    case Nil
    with assms(2) show ?thesis by simp
  next
    case (Cons d r)
    with assms(3) lookahead_first have "d = newline \<or> d = slash" by blast
    then have "\<not> is_word uni d" "d \<noteq> colon"
      using newline_not_word slash_not_word newline_not_colon slash_not_colon by auto
    with assms(2) Cons slash_word_colon_within [of uni "c # cs" d r] show ?thesis by auto
  qed
  with assms(1) show ?thesis
    by (simp add: lookahead_def newline_symbol_def end_of_line_def split: list.splits)
qed

lemma dot_plus_lazy_value:
  "single_line uni cs \<Longrightarrow> lookahead uni rest \<Longrightarrow>
     dot_plus_lazy uni (c # cs @ rest) = Some (c # cs, rest)"
proof (induction cs arbitrary: c)
  case Nil
  then show ?case by simp
next
  case (Cons d ds)
  from Cons.prems have "\<not> lookahead uni (d # ds @ rest)"
    by (intro no_lookahead_within) auto
  moreover from Cons.prems have "dot_plus_lazy uni (d # ds @ rest) = Some (d # ds, rest)"
    by (intro Cons.IH) auto
  ultimately show ?case by simp
qed

lemma segment_boundary_lookahead: "segment_boundary uni rest \<Longrightarrow> lookahead uni rest"
  by (auto simp: segment_boundary_def lookahead_def end_of_line_def split: list.splits)

lemma match_here_declaration:
  assumes "token_shape uni tok" and "list_all is_space ws" and "line_value uni v"
    and "lookahead uni rest"
  shows "match_here uni (tok @ colon # ws @ v @ rest) = Some (tok, v, rest)"
proof -
  from assms(3) obtain c cs where v: "v = c # cs" and c: "\<not> is_space c"
    and sl: "single_line uni cs"
    by (cases v) (auto simp: line_value_def)
  let ?k = "\<lambda>(_::ustring) r. case dot_plus_lazy uni r of None \<Rightarrow> None | Some (v, r') \<Rightarrow> Some (tok, v, r')"
  have d: "dot_plus_lazy uni (v @ rest) = Some (v, rest)"
    using dot_plus_lazy_value [OF sl assms(4)] by (simp add: v)
  have "greedy_star is_space ?k [] (ws @ (v @ rest)) = Some (tok, v, rest)"
    using d c assms(2) by (intro greedy_star_longest) (auto simp: v)
  then have "after_token uni tok (colon # ws @ v @ rest) = Some (tok, v, rest)"
    by (simp add: after_token_def)
  from match_here_token [OF assms(1) this] show ?thesis .
qed

lemma findall_declaration:
  assumes "\<forall>i<length lead. \<not> segment_start uni (drop i (lead @ tok @ colon # ws @ v @ rest))"
    and "token_shape uni tok" and "list_all is_space ws" and "line_value uni v"
    and "segment_boundary uni rest"
  shows "findall uni (lead @ tok @ colon # ws @ v @ rest) = (tok, v) # findall uni rest"
proof -
  from assms(1) have "findall uni (lead @ tok @ colon # ws @ v @ rest)
      = findall uni (tok @ colon # ws @ v @ rest)"
    by (rule findall_skip_prefix)
  also from assms(2-4) segment_boundary_lookahead [OF assms(5)]
  have "match_here uni (tok @ colon # ws @ v @ rest) = Some (tok, v, rest)"
    by (rule match_here_declaration)
  then have "findall uni (tok @ colon # ws @ v @ rest) = (tok, v) # findall uni rest"
    by (rule findall_match)
  finally show ?thesis .
qed

subsection \<open>The tokenizer\<close>

text \<open>
  C2. What the tokenizer does for every text. Each entry of the token mapping comes
  from a place of the text, anywhere in it, where a token (one code point of the
  symbol class, or a slash followed by one or more word characters, digits included)
  is followed by a colon, whitespace that may be empty, and a value that is not
  empty. The value begins with the first character after the colon that is no
  whitespace (or is the last whitespace character when nothing else follows up to the
  end of the text); it ends at the end of the text, before a line break or before a
  \<open>/word:\<close>, and it goes neither past a line break that a symbol follows nor past a
  \<open>/word:\<close>. The key is what the registry resolves the token to, and the stored value
  is the value with whitespace removed at its two ends only, so that it neither begins
  nor ends with whitespace. Text in front of the first segment start is discarded.
  And the first declaration of a text is found: when no segment start stands before
  it and its value is on one line, the value is all of the text up to the end of the
  text, up to the line break before a line that itself starts a segment, or up to the
  next \<open>/word:\<close>, and the search goes on from there, so that the declarations of a
  text come out one after the other.
\<close>

theorem tokenizer_segments:
  "((k, x) \<in> set (tokens (parse_message uni now s ag aty)) \<longrightarrow>
      (\<exists>tok v pre ws post a b.
           s = pre @ tok @ colon # ws @ v @ post \<and> token_shape uni tok \<and> list_all is_space ws
           \<and> v \<noteq> [] \<and> value_extent uni v post \<and> k = dict_get CORE_TOKENS tok tok
           \<and> v = a @ x @ b \<and> list_all is_space a \<and> list_all is_space b \<and> x = strip v
           \<and> (x \<noteq> [] \<longrightarrow> \<not> is_space (hd x) \<and> \<not> is_space (last x))))
   \<and> ((\<forall>i<length front. \<not> segment_start uni (drop i (front @ rest))) \<longrightarrow>
        tokens (parse_message uni now (front @ rest) ag aty)
          = tokens (parse_message uni now rest ag aty))
   \<and> ((\<forall>i<length lead. \<not> segment_start uni (drop i (lead @ t @ colon # sp @ w @ follow)))
        \<and> token_shape uni t \<and> list_all is_space sp \<and> line_value uni w
        \<and> segment_boundary uni follow \<longrightarrow>
        findall uni (lead @ t @ colon # sp @ w @ follow) = (t, w) # findall uni follow
        \<and> tokens (parse_message uni now (lead @ t @ colon # sp @ w @ follow) ag aty)
            = foldl store_match [(dict_get CORE_TOKENS t t, strip w)] (findall uni follow))"
proof -
  have 1: "(k, x) \<in> set (tokens (parse_message uni now s ag aty)) \<longrightarrow>
      (\<exists>tok v pre ws post a b.
           s = pre @ tok @ colon # ws @ v @ post \<and> token_shape uni tok \<and> list_all is_space ws
           \<and> v \<noteq> [] \<and> value_extent uni v post \<and> k = dict_get CORE_TOKENS tok tok
           \<and> v = a @ x @ b \<and> list_all is_space a \<and> list_all is_space b \<and> x = strip v
           \<and> (x \<noteq> [] \<longrightarrow> \<not> is_space (hd x) \<and> \<not> is_space (last x)))"
    by (rule impI) (rule parse_message_entry)
  have 2: "(\<forall>i<length front. \<not> segment_start uni (drop i (front @ rest))) \<longrightarrow>
        tokens (parse_message uni now (front @ rest) ag aty)
          = tokens (parse_message uni now rest ag aty)"
    by (simp add: parse_message_fields findall_skip_prefix)
  have 3: "(\<forall>i<length lead. \<not> segment_start uni (drop i (lead @ t @ colon # sp @ w @ follow)))
        \<and> token_shape uni t \<and> list_all is_space sp \<and> line_value uni w
        \<and> segment_boundary uni follow \<longrightarrow>
        findall uni (lead @ t @ colon # sp @ w @ follow) = (t, w) # findall uni follow
        \<and> tokens (parse_message uni now (lead @ t @ colon # sp @ w @ follow) ag aty)
            = foldl store_match [(dict_get CORE_TOKENS t t, strip w)] (findall uni follow)"
  proof
    assume "(\<forall>i<length lead. \<not> segment_start uni (drop i (lead @ t @ colon # sp @ w @ follow)))
        \<and> token_shape uni t \<and> list_all is_space sp \<and> line_value uni w
        \<and> segment_boundary uni follow"
    then have f: "findall uni (lead @ t @ colon # sp @ w @ follow) = (t, w) # findall uni follow"
      by (elim conjE) (rule findall_declaration)
    have "store_match [] (t, w) = [(dict_get CORE_TOKENS t t, strip w)]"
      by (simp add: store_match_def)
    with f show "findall uni (lead @ t @ colon # sp @ w @ follow) = (t, w) # findall uni follow
        \<and> tokens (parse_message uni now (lead @ t @ colon # sp @ w @ follow) ag aty)
            = foldl store_match [(dict_get CORE_TOKENS t t, strip w)] (findall uni follow)"
      by (simp add: parse_message_fields)
  qed
  from 1 2 3 show ?thesis by (intro conjI)
qed

lemma parse_action_a:
  "tokens (parse_message ascii_only [] ([0x1F680] @ ustr '': a'') (ustr ''Human'') HUMAN)
     = [(ustr ''/act'', ustr ''a'')]"
  by (simp add: parse_message_fields store_match_def dict_get_def CORE_TOKENS_value strip_def
        rx_defs ascii_only_def ustr_def)

theorem tokenizer_segments_witness:
  "(ustr ''/act'', ustr ''a'')
      \<in> set (tokens (parse_message ascii_only [] (ustr ''hi '' @ [0x1F680] @ ustr '': a'') (ustr ''Human'') HUMAN))
   \<and> (\<exists>tok v pre ws post a b.
           ustr ''hi '' @ [0x1F680] @ ustr '': a'' = pre @ tok @ colon # ws @ v @ post
           \<and> token_shape ascii_only tok \<and> list_all is_space ws
           \<and> v \<noteq> [] \<and> value_extent ascii_only v post
           \<and> ustr ''/act'' = dict_get CORE_TOKENS tok tok
           \<and> v = a @ ustr ''a'' @ b \<and> list_all is_space a \<and> list_all is_space b
           \<and> ustr ''a'' = strip v
           \<and> (ustr ''a'' \<noteq> [] \<longrightarrow> \<not> is_space (hd (ustr ''a'')) \<and> \<not> is_space (last (ustr ''a''))))
   \<and> tokens (parse_message ascii_only [] (ustr ''hi '' @ [0x1F680] @ ustr '': a'') (ustr ''Human'') HUMAN)
       = tokens (parse_message ascii_only [] ([0x1F680] @ ustr '': a'') (ustr ''Human'') HUMAN)
   \<and> findall ascii_only
         (ustr ''hi '' @ [0x1F680] @ colon # [32] @ ustr ''a b'' @ newline # ustr ''/note: c'')
       = ([0x1F680], ustr ''a b'') # findall ascii_only (newline # ustr ''/note: c'')
   \<and> tokens (parse_message ascii_only []
         (ustr ''hi '' @ [0x1F680] @ colon # [32] @ ustr ''a b'' @ newline # ustr ''/note: c'')
         (ustr ''Human'') HUMAN)
       = foldl store_match [(dict_get CORE_TOKENS [0x1F680] [0x1F680], strip (ustr ''a b''))]
           (findall ascii_only (newline # ustr ''/note: c''))"
proof -
  note T = tokenizer_segments [where k = "ustr ''/act''" and x = "ustr ''a''"
      and uni = ascii_only and now = "[]"
      and s = "ustr ''hi '' @ [0x1F680] @ ustr '': a''" and ag = "ustr ''Human''" and aty = HUMAN
      and front = "ustr ''hi ''" and rest = "[0x1F680] @ ustr '': a''"
      and lead = "ustr ''hi ''" and t = "[0x1F680]" and sp = "[32]" and w = "ustr ''a b''"
      and follow = "newline # ustr ''/note: c''"]
  have 1: "\<forall>i<length (ustr ''hi ''). \<not> segment_start ascii_only
             (drop i (ustr ''hi '' @ [0x1F680] @ ustr '': a''))"
    by (simp add: ustr_def All_less_Suc segment_start_def rx_defs ascii_only_def)
  from conjunct1 [OF conjunct2 [OF T]] 1
  have 2: "tokens (parse_message ascii_only [] (ustr ''hi '' @ [0x1F680] @ ustr '': a'') (ustr ''Human'') HUMAN)
       = tokens (parse_message ascii_only [] ([0x1F680] @ ustr '': a'') (ustr ''Human'') HUMAN)"
    by (rule mp)
  have 3: "(ustr ''/act'', ustr ''a'')
      \<in> set (tokens (parse_message ascii_only [] (ustr ''hi '' @ [0x1F680] @ ustr '': a'') (ustr ''Human'') HUMAN))"
    unfolding 2 parse_action_a by simp
  from conjunct1 [OF T] 3
  have 4: "\<exists>tok v pre ws post a b.
           ustr ''hi '' @ [0x1F680] @ ustr '': a'' = pre @ tok @ colon # ws @ v @ post
           \<and> token_shape ascii_only tok \<and> list_all is_space ws
           \<and> v \<noteq> [] \<and> value_extent ascii_only v post
           \<and> ustr ''/act'' = dict_get CORE_TOKENS tok tok
           \<and> v = a @ ustr ''a'' @ b \<and> list_all is_space a \<and> list_all is_space b
           \<and> ustr ''a'' = strip v
           \<and> (ustr ''a'' \<noteq> [] \<longrightarrow> \<not> is_space (hd (ustr ''a'')) \<and> \<not> is_space (last (ustr ''a'')))"
    by (rule mp)
  have h1: "\<forall>i<length (ustr ''hi ''). \<not> segment_start ascii_only
      (drop i (ustr ''hi '' @ [0x1F680] @ colon # [32] @ ustr ''a b'' @ newline # ustr ''/note: c''))"
    by (simp add: ustr_def All_less_Suc segment_start_def rx_defs ascii_only_def)
  have h2: "token_shape ascii_only [0x1F680]"
    by (simp add: token_shape_def in_class_def symbol_class_def)
  have h3: "list_all is_space [32]"
    by (simp add: is_space_def)
  have h4: "line_value ascii_only (ustr ''a b'')"
    by (simp add: line_value_def ustr_def rx_defs ascii_only_def)
  have h5: "segment_boundary ascii_only (newline # ustr ''/note: c'')"
    by (simp add: segment_boundary_def segment_start_def ustr_def rx_defs ascii_only_def)
  from h1 h2 h3 h4 h5
  have h: "(\<forall>i<length (ustr ''hi ''). \<not> segment_start ascii_only
      (drop i (ustr ''hi '' @ [0x1F680] @ colon # [32] @ ustr ''a b'' @ newline # ustr ''/note: c'')))
      \<and> token_shape ascii_only [0x1F680] \<and> list_all is_space [32]
      \<and> line_value ascii_only (ustr ''a b'')
      \<and> segment_boundary ascii_only (newline # ustr ''/note: c'')"
    by (intro conjI)
  from conjunct2 [OF conjunct2 [OF T]] h
  have 5: "findall ascii_only
         (ustr ''hi '' @ [0x1F680] @ colon # [32] @ ustr ''a b'' @ newline # ustr ''/note: c'')
       = ([0x1F680], ustr ''a b'') # findall ascii_only (newline # ustr ''/note: c'')
   \<and> tokens (parse_message ascii_only []
         (ustr ''hi '' @ [0x1F680] @ colon # [32] @ ustr ''a b'' @ newline # ustr ''/note: c'')
         (ustr ''Human'') HUMAN)
       = foldl store_match [(dict_get CORE_TOKENS [0x1F680] [0x1F680], strip (ustr ''a b''))]
           (findall ascii_only (newline # ustr ''/note: c''))"
    by (rule mp)
  from 3 4 2 conjunct1 [OF 5] conjunct2 [OF 5] show ?thesis by (intro conjI)
qed

text \<open>
  The claim as it is stated fails in three ways. A value ends at the first line
  break: of the text \<open>action: a\<close>, line break, \<open>b\<close> (with the symbol), whose second
  line starts no segment, only \<open>a\<close> is stored. A segment need not begin a line: in
  \<open>x\<close> followed by the same declaration on one line the declaration is found. And a
  canonical identifier may hold digits: \<open>/a1: x\<close> is a declaration of \<open>/a1\<close>.
\<close>

theorem tokenizer_segments_counterexample:
  "tokens (parse_message ascii_only [] ([0x1F680] @ ustr '': a'' @ [newline] @ ustr ''b'')
             (ustr ''Human'') HUMAN)
     = [(ustr ''/act'', ustr ''a'')]
   \<and> tokens (parse_message ascii_only [] ([0x1F680] @ ustr '': a'' @ [newline] @ ustr ''b'')
             (ustr ''Human'') HUMAN)
     \<noteq> [(ustr ''/act'', ustr ''a'' @ [newline] @ ustr ''b'')]
   \<and> tokens (parse_message ascii_only [] (ustr ''x'' @ [0x1F680] @ ustr '': a'')
             (ustr ''Human'') HUMAN)
     = [(ustr ''/act'', ustr ''a'')]
   \<and> tokens (parse_message ascii_only [] (ustr ''/a1: x'') (ustr ''Human'') HUMAN)
     = [(ustr ''/a1'', ustr ''x'')]"
  by (simp add: parse_message_fields store_match_def dict_get_def CORE_TOKENS_value strip_def
        rx_defs ascii_only_def ustr_def)

end
